theory Spec2Isabelle
  imports Main "HOL-Library.Sublist"
begin

section \<open>Punctuation processing of phonemizer (phonemizer/punctuation.py)\<close>

text \<open>
  The module hides the punctuation of a text from a phonemization backend and puts it
  back afterwards. This theory embeds the class \<^verbatim>\<open>Punctuation\<close> of the module, with the
  part of Python's \<^verbatim>\<open>re\<close> and \<^verbatim>\<open>str\<close> libraries that the class uses. The
  interpreter's recursion limit is not part of the model.
\<close>

subsection \<open>Python values\<close>

text \<open>
  A Python \<^verbatim>\<open>str\<close> is a sequence of Unicode code points; a code point is a natural
  number. \<open>str\<close> turns an ASCII literal into that form.
\<close>

type_synonym pystr = "nat list"

definition str :: "string \<Rightarrow> pystr" where
  "str s = map of_char s"

text \<open>The argument of the methods \<^verbatim>\<open>remove\<close>, \<^verbatim>\<open>preserve\<close> and \<^verbatim>\<open>restore\<close>: a string
  or a list of strings.\<close>

datatype pytext = Line pystr | Lines "pystr list"

text \<open>The value given to the constructor: a string, or an object of another type.\<close>

datatype pyobject = Str pystr | NotStr

datatype re_error = Unterminated_character_set | Bad_character_range | Bad_escape

datatype error = ValueError | IndexError | Re_error re_error

text \<open>
  What a call of the constructor does: it returns, it raises, or its regular expression
  is outside the fragment of \<^verbatim>\<open>re\<close> that this theory models.
\<close>

datatype 'a outcome = Returns 'a | Raises error | Unmodelled

text \<open>
  \<^verbatim>\<open>str.isspace\<close> of one code point; the class \<^verbatim>\<open>\s\<close> of a Unicode pattern and
  \<^verbatim>\<open>str.strip\<close> both use it.
\<close>

definition isspace :: "nat \<Rightarrow> bool" where
  "isspace c \<longleftrightarrow>
     (9 \<le> c \<and> c \<le> 13) \<or> (28 \<le> c \<and> c \<le> 32) \<or> c = 133 \<or> c = 160 \<or> c = 5760 \<or>
     (8192 \<le> c \<and> c \<le> 8202) \<or> c = 8232 \<or> c = 8233 \<or> c = 8239 \<or> c = 8287 \<or> c = 12288"

definition strip :: "pystr \<Rightarrow> pystr" where
  "strip s = rev (dropWhile isspace (rev (dropWhile isspace s)))"

text \<open>\<^verbatim>\<open>s.split(sep)\<close>: the pieces between the occurrences of \<open>sep\<close>, found from the left
  without overlap; an empty separator raises \<^verbatim>\<open>ValueError\<close>.\<close>

function split_aux :: "pystr \<Rightarrow> pystr \<Rightarrow> pystr \<Rightarrow> pystr list" where
  "split_aux sep cur [] = [cur]"
| "split_aux sep cur (c # cs) =
     (if sep \<noteq> [] \<and> prefix sep (c # cs)
      then cur # split_aux sep [] (drop (length sep) (c # cs))
      else split_aux sep (cur @ [c]) cs)"
  by pat_completeness auto
termination
  by (relation "measure (\<lambda>(sep, cur, s). length s)") auto

definition split :: "pystr \<Rightarrow> pystr \<Rightarrow> error + pystr list" where
  "split s sep = (if sep = [] then Inl ValueError else Inr (split_aux sep [] s))"

text \<open>\<^verbatim>\<open>sep.join(xs)\<close>\<close>

fun join :: "pystr \<Rightarrow> pystr list \<Rightarrow> pystr" where
  "join sep [] = []"
| "join sep [x] = x"
| "join sep (x # y # ys) = x @ sep @ join sep (y # ys)"

subsection \<open>The regular expression \<^verbatim>\<open>\s*[marks]+\s*\<close>\<close>

text \<open>
  \<^verbatim>\<open>re.compile\<close> reads the pattern as tokens: a character, or a backslash with the
  character after it.
\<close>

datatype token = Chr nat | Esc nat

fun tokens :: "pystr \<Rightarrow> token list option" where
  "tokens [] = Some []"
| "tokens (c # cs) =
     (if c = 92 then
        (case cs of
           [] \<Rightarrow> None
         | e # cs' \<Rightarrow> (case tokens cs' of None \<Rightarrow> None | Some ts \<Rightarrow> Some (Esc e # ts)))
      else (case tokens cs of None \<Rightarrow> None | Some ts \<Rightarrow> Some (Chr c # ts)))"

text \<open>The members of a character set: a literal, a range, the category \<^verbatim>\<open>\s\<close>.\<close>

datatype set_item = LITERAL nat | RANGE nat nat | CATEGORY_SPACE

text \<open>
  The code of one token inside a character set. Of the escapes only \<^verbatim>\<open>\s\<close> is modelled
  (it is the one of the pattern's own text); \<open>None\<close> stands for every other escape.
\<close>

fun class_code :: "token \<Rightarrow> set_item option" where
  "class_code (Chr c) = Some (LITERAL c)"
| "class_code (Esc e) = (if e = 115 then Some CATEGORY_SPACE else None)"

datatype parsed = Closed "set_item list" "token list" | Failed re_error | Outside

text \<open>
  The loop of the parser of \<^verbatim>\<open>re\<close> over a character set, entered after the opening
  bracket and the optional \<^verbatim>\<open>^\<close>: a closing bracket ends the set unless it is the first
  member; a member followed by \<^verbatim>\<open>-\<close> opens a range, unless the closing bracket follows.
  \<open>Closed items rest\<close> gives the members and the tokens after the closing bracket.
\<close>

fun parse_set :: "set_item list \<Rightarrow> token list \<Rightarrow> parsed" where
  "parse_set items [] = Failed Unterminated_character_set"
| "parse_set items [t] =
     (if t = Chr 93 \<and> items \<noteq> [] then Closed items []
      else (case class_code t of
              None \<Rightarrow> Outside
            | Some code1 \<Rightarrow> Failed Unterminated_character_set))"
| "parse_set items [t, u] =
     (if t = Chr 93 \<and> items \<noteq> [] then Closed items [u]
      else (case class_code t of
              None \<Rightarrow> Outside
            | Some code1 \<Rightarrow>
                if u = Chr 45 then Failed Unterminated_character_set
                else parse_set (items @ [code1]) [u]))"
| "parse_set items (t # u # that # ts) =
     (if t = Chr 93 \<and> items \<noteq> [] then Closed items (u # that # ts)
      else (case class_code t of
              None \<Rightarrow> Outside
            | Some code1 \<Rightarrow>
                if u = Chr 45 then
                  (if that = Chr 93 then Closed (items @ [code1, LITERAL 45]) ts
                   else (case class_code that of
                           None \<Rightarrow> Outside
                         | Some code2 \<Rightarrow>
                             (case (code1, code2) of
                                (LITERAL lo, LITERAL hi) \<Rightarrow>
                                  if hi < lo then Failed Bad_character_range
                                  else parse_set (items @ [RANGE lo hi]) ts
                              | _ \<Rightarrow> Failed Bad_character_range)))
                else parse_set (items @ [code1]) (u # that # ts)))"

text \<open>A compiled pattern of the shape \<^verbatim>\<open>\s*[set]+\s*\<close> is its character set.\<close>

record pattern =
  negate :: bool
  items :: "set_item list"

fun item_matches :: "set_item \<Rightarrow> nat \<Rightarrow> bool" where
  "item_matches (LITERAL a) c \<longleftrightarrow> c = a"
| "item_matches (RANGE lo hi) c \<longleftrightarrow> lo \<le> c \<and> c \<le> hi"
| "item_matches CATEGORY_SPACE c \<longleftrightarrow> isspace c"

definition in_set :: "pattern \<Rightarrow> nat \<Rightarrow> bool" where
  "in_set p c \<longleftrightarrow> (negate p \<noteq> list_ex (\<lambda>i. item_matches i c) (items p))"

text \<open>
  \<^verbatim>\<open>re.compile(fr'\s*[{marks}]+\s*')\<close>. The text of \<open>marks\<close> is pasted into the pattern
  as it is, so the parser reads it as the inside of a character set, followed by the
  pattern's \<^verbatim>\<open>]+\s*\<close>. When the set closes at the pattern's own bracket the result has
  the shape above; when it closes earlier, at a bracket of \<open>marks\<close>, the pattern is
  another regular expression, outside this model.
\<close>

definition pattern_tail :: pystr where
  "pattern_tail = [93, 43, 92, 115, 42]"

definition re_compile :: "pystr \<Rightarrow> pattern outcome" where
  "re_compile ms =
     (case tokens (ms @ pattern_tail) of
        None \<Rightarrow> Raises (Re_error Bad_escape)
      | Some ts \<Rightarrow>
          (let neg = (ts \<noteq> [] \<and> hd ts = Chr 94);
               body = (if neg then tl ts else ts)
           in case parse_set [] body of
                Failed e \<Rightarrow> Raises (Re_error e)
              | Outside \<Rightarrow> Unmodelled
              | Closed its rest \<Rightarrow>
                  if rest = [Chr 43, Esc 115, Chr 42]
                  then Returns \<lparr>negate = neg, items = its\<rparr>
                  else Unmodelled))"

text \<open>
  One attempt of the pattern at the start of \<open>s\<close>. The first \<^verbatim>\<open>\s*\<close> takes \<open>k\<close>
  characters, at first the whole run of whitespace; \<^verbatim>\<open>[marks]+\<close> then takes the longest
  run of marks and the last \<^verbatim>\<open>\s*\<close> the longest run of whitespace. When no mark follows
  the \<open>k\<close> characters the first \<^verbatim>\<open>\s*\<close> gives one character back. The result is the
  length of the match.
\<close>

fun backtrack :: "(nat \<Rightarrow> bool) \<Rightarrow> pystr \<Rightarrow> nat \<Rightarrow> nat option" where
  "backtrack isM s 0 =
     (let ms = takeWhile isM s
      in if ms = [] then None
         else Some (length ms + length (takeWhile isspace (drop (length ms) s))))"
| "backtrack isM s (Suc k) =
     (let ms = takeWhile isM (drop (Suc k) s)
      in if ms = [] then backtrack isM s k
         else Some (Suc k + length ms +
                    length (takeWhile isspace (drop (Suc k + length ms) s))))"

definition match_at :: "(nat \<Rightarrow> bool) \<Rightarrow> pystr \<Rightarrow> nat option" where
  "match_at isM s = backtrack isM s (length (takeWhile isspace s))"

text \<open>A match object: its span and its text (\<^verbatim>\<open>m.group()\<close>). Two match objects of one
  scan are the same object exactly when their spans are equal.\<close>

record match =
  m_start :: nat
  m_end :: nat
  group :: pystr

lemma backtrack_pos: "backtrack isM s k = Some n \<Longrightarrow> 0 < n"
  by (induction k) (auto simp: Let_def split: if_splits)

lemma match_at_pos: "match_at isM s = Some n \<Longrightarrow> 0 < n"
  unfolding match_at_def by (rule backtrack_pos)

text \<open>\<^verbatim>\<open>re.finditer\<close>: the matches from the left, without overlap: the scan tries every
  position in turn and goes on behind a match. \<open>pos\<close> is the position of \<open>s\<close> in the
  line.\<close>

function finditer_from :: "(nat \<Rightarrow> bool) \<Rightarrow> nat \<Rightarrow> pystr \<Rightarrow> match list" where
  "finditer_from isM pos [] = []"
| "finditer_from isM pos (c # cs) =
     (case match_at isM (c # cs) of
        None \<Rightarrow> finditer_from isM (Suc pos) cs
      | Some n \<Rightarrow>
          \<lparr>m_start = pos, m_end = pos + n, group = take n (c # cs)\<rparr>
            # finditer_from isM (pos + n) (drop n (c # cs)))"
  by pat_completeness auto
termination
  by (relation "measure (\<lambda>(isM, pos, s). length s)") (auto dest: match_at_pos)

definition finditer :: "(nat \<Rightarrow> bool) \<Rightarrow> pystr \<Rightarrow> match list" where
  "finditer isM line = finditer_from isM 0 line"

text \<open>\<^verbatim>\<open>re.sub(pattern, repl, s)\<close>: every match replaced by \<open>repl\<close>.\<close>

function sub :: "(nat \<Rightarrow> bool) \<Rightarrow> pystr \<Rightarrow> pystr \<Rightarrow> pystr" where
  "sub isM repl [] = []"
| "sub isM repl (c # cs) =
     (case match_at isM (c # cs) of
        None \<Rightarrow> c # sub isM repl cs
      | Some n \<Rightarrow> repl @ sub isM repl (drop n (c # cs)))"
  by pat_completeness auto
termination
  by (relation "measure (\<lambda>(isM, repl, s). length s)") (auto dest: match_at_pos)

subsection \<open>The class \<^verbatim>\<open>Punctuation\<close>\<close>

text \<open>The punctuation marks considered by default: \<^verbatim>\<open>;:,.!?\<close>, the inverted exclamation
  and question marks, the em dash, the ellipsis, the double quote, the two guillemets and
  the two curly double quotes.\<close>

definition default_marks :: pystr where
  "default_marks =
     [59, 58, 44, 46, 33, 63, 161, 191, 8212, 8230, 34, 171, 187, 8220, 8221]"

datatype position = Pos_B | Pos_E | Pos_A | Pos_I

text \<open>The named tuple \<^verbatim>\<open>_mark_index\<close>; the position is one of the letters B, E, A, I.\<close>

record mark_index =
  index :: int
  mark :: pystr
  position :: position

text \<open>The attributes \<^verbatim>\<open>_marks\<close> and \<^verbatim>\<open>_marks_re\<close> of an object of the class.\<close>

record punctuation =
  marks :: pystr
  marks_re :: pattern

text \<open>
  \<^verbatim>\<open>''.join(set(value))\<close>: the characters of \<open>value\<close>, each once, in the order in which
  the interpreter iterates the set. The order is the interpreter's; the model takes it as
  the function \<open>order\<close>, of which \<open>set_order\<close> says what Python promises.
\<close>

definition set_order :: "(pystr \<Rightarrow> pystr) \<Rightarrow> bool" where
  "set_order order \<longleftrightarrow> (\<forall>v. distinct (order v) \<and> set (order v) = set v)"

text \<open>The setter of the property \<^verbatim>\<open>marks\<close>, which the constructor calls.\<close>

definition set_marks :: "(pystr \<Rightarrow> pystr) \<Rightarrow> pyobject \<Rightarrow> punctuation outcome" where
  "set_marks order val =
     (case val of
        NotStr \<Rightarrow> Raises ValueError
      | Str v \<Rightarrow>
          (let ms = order v
           in case re_compile ms of
                Raises e \<Rightarrow> Raises e
              | Unmodelled \<Rightarrow> Unmodelled
              | Returns re \<Rightarrow> Returns \<lparr>marks = ms, marks_re = re\<rparr>))"

definition Punctuation :: "(pystr \<Rightarrow> pystr) \<Rightarrow> pyobject \<Rightarrow> punctuation outcome" where
  "Punctuation order val = set_marks order val"

text \<open>The characters that the compiled pattern of an object takes as marks.\<close>

definition is_mark :: "punctuation \<Rightarrow> nat \<Rightarrow> bool" where
  "is_mark P = in_set (marks_re P)"

text \<open>
  Modelled from the spec: \<^verbatim>\<open>phonemizer.utils.str2list\<close> is not part of the sources at
  hand. By the specification a single line is treated as a sequence of one element, and a
  sequence is taken as it is.
\<close>

fun str2list :: "pytext \<Rightarrow> pystr list" where
  "str2list (Line s) = [s]"
| "str2list (Lines ls) = ls"

text \<open>\<^verbatim>\<open>Punctuation.remove\<close>\<close>

definition remove_aux :: "punctuation \<Rightarrow> pystr \<Rightarrow> pystr" where
  "remove_aux P text = strip (sub (is_mark P) [32] text)"

fun remove :: "punctuation \<Rightarrow> pytext \<Rightarrow> pytext" where
  "remove P (Line s) = Line (remove_aux P s)"
| "remove P (Lines ls) = Lines (map (remove_aux P) ls)"

text \<open>The first loop of \<^verbatim>\<open>_preserve_line\<close>: the position of a match in the utterance.\<close>

definition mark_position :: "match list \<Rightarrow> pystr \<Rightarrow> match \<Rightarrow> position" where
  "mark_position matches line m =
     (if m = hd matches \<and> prefix (group m) line then Pos_B
      else if m = last matches \<and> suffix (group m) line then Pos_E
      else Pos_I)"

text \<open>The second loop of \<^verbatim>\<open>_preserve_line\<close>: the line is cut at each mark in turn. The
  result is \<^verbatim>\<open>preserved_line\<close> and what is left of the line.\<close>

fun sublines :: "pystr \<Rightarrow> mark_index list \<Rightarrow> error + (pystr list \<times> pystr)" where
  "sublines line [] = Inr ([], line)"
| "sublines line (m # ms) =
     (case split line (mark m) of
        Inl e \<Rightarrow> Inl e
      | Inr [] \<Rightarrow> Inl IndexError
      | Inr (pre # rest) \<Rightarrow>
          (case sublines (join (mark m) rest) ms of
             Inl e \<Rightarrow> Inl e
           | Inr (preserved_line, l) \<Rightarrow> Inr (pre # preserved_line, l)))"

definition preserve_line ::
  "punctuation \<Rightarrow> pystr \<Rightarrow> int \<Rightarrow> error + (pystr list \<times> mark_index list)" where
  "preserve_line P line n =
     (let matches = finditer (is_mark P) line
      in if matches = [] then Inr ([line], [])
         else if length matches = 1 \<and> group (hd matches) = line
         then Inr ([], [\<lparr>index = n, mark = line, position = Pos_A\<rparr>])
         else
           (let ms = map (\<lambda>m. \<lparr>index = n, mark = group m,
                                 position = mark_position matches line m\<rparr>) matches
            in case sublines line ms of
                 Inl e \<Rightarrow> Inl e
               | Inr (preserved_line, l) \<Rightarrow> Inr (preserved_line @ [l], ms)))"

text \<open>The loop of \<^verbatim>\<open>preserve\<close> over the numbered lines, with its two accumulators.\<close>

fun preserve_loop ::
  "punctuation \<Rightarrow> int \<Rightarrow> pystr list \<Rightarrow> pystr list \<Rightarrow> mark_index list \<Rightarrow>
   error + (pystr list \<times> mark_index list)" where
  "preserve_loop P n [] preserved_text preserved_marks =
     Inr (preserved_text, preserved_marks)"
| "preserve_loop P n (line # lines) preserved_text preserved_marks =
     (case preserve_line P line n of
        Inl e \<Rightarrow> Inl e
      | Inr (l, ms) \<Rightarrow>
          preserve_loop P (n + 1) lines (preserved_text @ l) (preserved_marks @ ms))"

definition preserve :: "punctuation \<Rightarrow> pytext \<Rightarrow> error + (pystr list \<times> mark_index list)" where
  "preserve P text =
     (case preserve_loop P 0 (str2list text) [] [] of
        Inl e \<Rightarrow> Inl e
      | Inr (preserved_text, preserved_marks) \<Rightarrow>
          Inr (filter (\<lambda>line. line \<noteq> []) preserved_text, preserved_marks))"

text \<open>A line put in front of the result of a recursive call, when that call returns.\<close>

fun cons_result :: "pystr \<Rightarrow> error + pystr list \<Rightarrow> error + pystr list" where
  "cons_result x (Inl e) = Inl e"
| "cons_result x (Inr xs) = Inr (x # xs)"

text \<open>\<^verbatim>\<open>Punctuation._restore_aux\<close>; reading \<^verbatim>\<open>text[0]\<close> or \<^verbatim>\<open>text[1]\<close> beyond the end
  of \<open>text\<close> raises \<^verbatim>\<open>IndexError\<close>.\<close>

function restore_aux :: "pystr list \<Rightarrow> mark_index list \<Rightarrow> int \<Rightarrow> error + pystr list" where
  "restore_aux text [] n = Inr text"
| "restore_aux text (m # ms) n =
     (if index m = n then
        (case position m of
           Pos_B \<Rightarrow>
             (case text of
                [] \<Rightarrow> Inl IndexError
              | t0 # ts \<Rightarrow> restore_aux ((mark m @ t0) # ts) ms n)
         | Pos_E \<Rightarrow>
             (case text of
                [] \<Rightarrow> Inl IndexError
              | t0 # ts \<Rightarrow> cons_result (t0 @ mark m) (restore_aux ts ms (n + 1)))
         | Pos_A \<Rightarrow> cons_result (mark m) (restore_aux text ms (n + 1))
         | Pos_I \<Rightarrow>
             (case text of
                t0 # t1 # ts \<Rightarrow> restore_aux ((t0 @ mark m @ t1) # ts) ms n
              | _ \<Rightarrow> Inl IndexError))
      else
        (case text of
           [] \<Rightarrow> Inl IndexError
         | t0 # ts \<Rightarrow> cons_result t0 (restore_aux ts (m # ms) (n + 1))))"
  by pat_completeness auto
termination
  by (relation "measure (\<lambda>(text, ms, n). length text + length ms)") auto

definition restore :: "pytext \<Rightarrow> mark_index list \<Rightarrow> error + pystr list" where
  "restore text ms = restore_aux (str2list text) ms 0"

subsection \<open>Notions used in the statements and proofs\<close>

text \<open>The object that \<^verbatim>\<open>Punctuation()\<close> builds when the set of the default marks is
  iterated in the order in which the marks are written.\<close>

definition default_punctuation :: punctuation where
  "default_punctuation =
     \<lparr>marks = default_marks, marks_re = \<lparr>negate = False, items = map LITERAL default_marks\<rparr>\<rparr>"

text \<open>The pieces of a line between the matches of the pattern, as the scan of
  \<open>finditer_from\<close> leaves them; \<open>cur\<close> is what the first piece already holds.\<close>

function chunks_of :: "(nat \<Rightarrow> bool) \<Rightarrow> pystr \<Rightarrow> pystr \<Rightarrow> pystr list" where
  "chunks_of isM cur [] = [cur]"
| "chunks_of isM cur (c # cs) =
     (case match_at isM (c # cs) of
        None \<Rightarrow> chunks_of isM (cur @ [c]) cs
      | Some n \<Rightarrow> cur # chunks_of isM [] (drop n (c # cs)))"
  by pat_completeness auto
termination
  by (relation "measure (\<lambda>(isM, cur, s). length s)") (auto dest: match_at_pos)

text \<open>No two successive matches touch: each ends before the next one starts.\<close>

fun separated :: "match list \<Rightarrow> bool" where
  "separated (m # m' # ms) \<longleftrightarrow> m_end m < m_start m' \<and> separated (m' # ms)"
| "separated ms \<longleftrightarrow> True"

text \<open>A mark, then whitespace, then a mark again: the text in which two matches touch
  when no mark is a whitespace character.\<close>

fun mark_space_mark :: "(nat \<Rightarrow> bool) \<Rightarrow> pystr \<Rightarrow> bool" where
  "mark_space_mark isM [] \<longleftrightarrow> False"
| "mark_space_mark isM (c # cs) \<longleftrightarrow>
     (isM c \<and> takeWhile isspace cs \<noteq> [] \<and> dropWhile isspace cs \<noteq> [] \<and>
      isM (hd (dropWhile isspace cs))) \<or>
     mark_space_mark isM cs"

text \<open>A line put together again: a first piece, then each match with the piece behind it.\<close>

fun weave :: "pystr \<Rightarrow> (pystr \<times> pystr) list \<Rightarrow> pystr" where
  "weave c [] = c"
| "weave c ((g, c') # xs) = c @ g @ weave c' xs"

text \<open>The mark records of the matches of a line behind its first piece: all of position
  \<open>I\<close>, but the last, which has position \<open>E\<close> when nothing follows it.\<close>

fun tail_marks :: "int \<Rightarrow> (pystr \<times> pystr) list \<Rightarrow> mark_index list" where
  "tail_marks n [] = []"
| "tail_marks n [(g, c)] =
     [\<lparr>index = n, mark = g, position = (if c = [] then Pos_E else Pos_I)\<rparr>]"
| "tail_marks n ((g, c) # x # xs) =
     \<lparr>index = n, mark = g, position = Pos_I\<rparr> # tail_marks n (x # xs)"

text \<open>The mark record that \<^verbatim>\<open>_preserve_line\<close> builds for one match.\<close>

definition line_mark :: "match list \<Rightarrow> pystr \<Rightarrow> int \<Rightarrow> match \<Rightarrow> mark_index" where
  "line_mark matches line n m =
     \<lparr>index = n, mark = group m, position = mark_position matches line m\<rparr>"

text \<open>What \<^verbatim>\<open>_preserve_line\<close> returns for one line, and what the loop of
  \<^verbatim>\<open>preserve\<close> gathers for a list of lines numbered from \<open>n\<close>.\<close>

definition line_result :: "punctuation \<Rightarrow> pystr \<Rightarrow> int \<Rightarrow> pystr list \<times> mark_index list" where
  "line_result P line n =
     (let matches = finditer (is_mark P) line
      in if matches = [] then ([line], [])
         else if length matches = 1 \<and> group (hd matches) = line
         then ([], [\<lparr>index = n, mark = line, position = Pos_A\<rparr>])
         else (chunks_of (is_mark P) [] line, map (line_mark matches line n) matches))"

fun all_results :: "punctuation \<Rightarrow> int \<Rightarrow> pystr list \<Rightarrow> pystr list \<times> mark_index list" where
  "all_results P n [] = ([], [])"
| "all_results P n (l # ls) =
     (fst (line_result P l n) @ fst (all_results P (n + 1) ls),
      snd (line_result P l n) @ snd (all_results P (n + 1) ls))"

text \<open>The number of marks of position \<open>A\<close>.\<close>

definition count_alone :: "mark_index list \<Rightarrow> nat" where
  "count_alone ms = length (filter (\<lambda>m. position m = Pos_A) ms)"

text \<open>The marks can be placed when the walk stands at line \<open>n\<close> with \<open>k\<close> chunks left:
  the index of the next mark is not below \<open>n\<close>, each line from \<open>n\<close> up to that index
  takes one chunk, and then a mark of position \<open>B\<close> finds a chunk and keeps it, a mark of
  position \<open>I\<close> finds two and leaves one of them, a mark of position \<open>E\<close> takes one
  and ends the line, and a mark of position \<open>A\<close> ends the line with no chunk taken.\<close>

fun placeable :: "int \<Rightarrow> int \<Rightarrow> mark_index list \<Rightarrow> bool" where
  "placeable k n [] = True"
| "placeable k n (m # ms) =
     (n \<le> index m \<and>
      (let k' = k - (index m - n) in
         case position m of
           Pos_B \<Rightarrow> 1 \<le> k' \<and> placeable k' (index m) ms
         | Pos_E \<Rightarrow> 1 \<le> k' \<and> placeable (k' - 1) (index m + 1) ms
         | Pos_A \<Rightarrow> 0 \<le> k' \<and> placeable k' (index m + 1) ms
         | Pos_I \<Rightarrow> 2 \<le> k' \<and> placeable (k' - 1) (index m) ms))"

text \<open>Some mark has an index that is not beyond that of a mark of position \<open>E\<close> or
  \<open>A\<close> before it: it refers to a line that the walk has finished by then.\<close>

fun finished_line_again :: "mark_index list \<Rightarrow> bool" where
  "finished_line_again [] = False"
| "finished_line_again (m # ms) =
     (((position m = Pos_E \<or> position m = Pos_A) \<and> list_ex (\<lambda>m'. index m' \<le> index m) ms) \<or>
      finished_line_again ms)"

text \<open>An alphabet with none of the characters that are special inside a character set:
  the hyphen, the backslash, the closing bracket and the circumflex.\<close>

definition plain_marks :: "pystr \<Rightarrow> bool" where
  "plain_marks v \<longleftrightarrow> v \<noteq> [] \<and> (\<forall>c\<in>set v. c \<noteq> 45 \<and> c \<noteq> 92 \<and> c \<noteq> 93 \<and> c \<noteq> 94)"

text \<open>The definitions that evaluate the model on a concrete input.\<close>

lemmas eval_simps = str_def is_mark_def default_punctuation_def in_set_def default_marks_def
  match_at_def isspace_def finditer_def preserve_def preserve_line_def mark_position_def
  restore_def split_def Let_def strip_def remove_aux_def suffix_to_prefix

section \<open>Properties\<close>

subsection \<open>One attempt of the pattern\<close>

lemma backtrack_Some:
  "backtrack isM s k = Some n \<Longrightarrow> k \<le> length s \<Longrightarrow> n \<le> length s \<and> (\<exists>j<n. isM (s ! j))"
proof (induction k)
  case 0
  let ?ms = "takeWhile isM s"
  from 0 have ne: "?ms \<noteq> []" and n: "n = length ?ms + length (takeWhile isspace (drop (length ?ms) s))"
    by (auto simp: Let_def split: if_splits)
  have "length (takeWhile isspace (drop (length ?ms) s)) \<le> length s - length ?ms"
    by (metis length_drop length_takeWhile_le)
  moreover have "length ?ms \<le> length s" by (rule length_takeWhile_le)
  ultimately have "n \<le> length s" using n by simp
  moreover from ne have "isM (s ! 0)"
    by (cases s) (auto split: if_splits)
  moreover from ne n have "0 < n" by simp
  ultimately show ?case by blast
next
  case (Suc k)
  let ?ms = "takeWhile isM (drop (Suc k) s)"
  show ?case
  proof (cases "?ms = []")
    case True
    with Suc show ?thesis by (simp add: Let_def)
  next
    case False
    with Suc.prems have n: "n = Suc k + length ?ms + length (takeWhile isspace (drop (Suc k + length ?ms) s))"
      by (simp add: Let_def)
    have a: "length ?ms \<le> length s - Suc k"
      by (metis length_drop length_takeWhile_le)
    have b: "length (takeWhile isspace (drop (Suc k + length ?ms) s)) \<le> length s - (Suc k + length ?ms)"
      by (metis length_drop length_takeWhile_le)
    from False have dn: "drop (Suc k) s \<noteq> []" by auto
    then have lt: "Suc k < length s" by simp
    from a b lt have "n \<le> length s" using n by simp
    moreover from False dn have "isM (hd (drop (Suc k) s))"
      by (cases "drop (Suc k) s") (auto split: if_splits)
    then have "isM (s ! Suc k)" using lt by (simp add: hd_drop_conv_nth)
    moreover from False n have "Suc k < n" by simp
    ultimately show ?thesis by blast
  qed
qed

lemma match_at_Some:
  assumes "match_at isM s = Some n"
  shows "0 < n" and "n \<le> length s" and "\<exists>x\<in>set (take n s). isM x"
proof -
  have k: "length (takeWhile isspace s) \<le> length s" by (rule length_takeWhile_le)
  from assms have b: "backtrack isM s (length (takeWhile isspace s)) = Some n"
    by (simp add: match_at_def)
  from backtrack_Some[OF b k] obtain j where n: "n \<le> length s" and j: "j < n" "isM (s ! j)"
    by blast
  show "0 < n" using j by simp
  show "n \<le> length s" by (rule n)
  have "s ! j \<in> set (take n s)" using j n
    by (metis in_set_conv_nth length_take min.absorb2 nth_take)
  with j show "\<exists>x\<in>set (take n s). isM x" by blast
qed

lemma backtrack_hd: "s \<noteq> [] \<Longrightarrow> isM (hd s) \<Longrightarrow> backtrack isM s k \<noteq> None"
  by (induction k) (cases s; auto simp: Let_def)+

lemma match_at_None: "match_at isM (c # cs) = None \<Longrightarrow> \<not> isM c"
  using backtrack_hd[of "c # cs" isM "length (takeWhile isspace (c # cs))"]
  unfolding match_at_def by auto

lemma backtrack_no_mark: "\<forall>x\<in>set s. \<not> isM x \<Longrightarrow> backtrack isM s k = None"
proof (induction k)
  case 0
  then have "takeWhile isM s = []" by (cases s) auto
  then show ?case by simp
next
  case (Suc k)
  have "set (drop (Suc k) s) \<subseteq> set s" by (rule set_drop_subset)
  with Suc.prems have "takeWhile isM (drop (Suc k) s) = []"
    by (cases "drop (Suc k) s") auto
  with Suc show ?case by simp
qed

lemma match_at_no_mark: "\<forall>x\<in>set s. \<not> isM x \<Longrightarrow> match_at isM s = None"
  by (simp add: match_at_def backtrack_no_mark)

lemma backtrack_here:
  "takeWhile isM (drop k s) \<noteq> [] \<Longrightarrow>
     backtrack isM s k =
       Some (k + length (takeWhile isM (drop k s)) +
             length (takeWhile isspace (drop (k + length (takeWhile isM (drop k s))) s)))"
  by (cases k) (simp_all add: Let_def)

lemma match_at_run:
  assumes ws: "\<forall>x\<in>set ws. isspace x \<and> \<not> isM x" and ne: "ms \<noteq> []"
    and ms: "\<forall>x\<in>set ms. isM x \<and> \<not> isspace x"
    and ws': "\<forall>x\<in>set ws'. isspace x \<and> \<not> isM x"
  shows "match_at isM (ws @ ms @ ws') = Some (length (ws @ ms @ ws'))"
proof -
  from ne obtain a ms' where a: "ms = a # ms'" by (cases ms) auto
  with ms have na: "\<not> isspace a" by simp
  have k: "takeWhile isspace (ws @ ms @ ws') = ws"
    using ws a na by (simp add: takeWhile_append2)
  have w0: "takeWhile isM ws' = []" using ws' by (cases ws') auto
  have m: "takeWhile isM (ms @ ws') = ms"
    using ms w0 by (simp add: takeWhile_append2)
  have w: "takeWhile isspace ws' = ws'" using ws' by (simp add: takeWhile_eq_all_conv)
  have "backtrack isM (ws @ ms @ ws') (length ws) =
      Some (length ws + length ms + length ws')"
    using backtrack_here[of isM "length ws" "ws @ ms @ ws'"] m w ne by simp
  then show ?thesis by (simp add: match_at_def k)
qed

subsection \<open>Cutting a line at a mark\<close>

text \<open>A mark holds a character of the set, and nothing in front of a match does: so the
  first occurrence of the text of a match is the match itself.\<close>

lemma no_early_occurrence:
  assumes pre: "\<forall>x\<in>set pre. \<not> isM x" and sep: "\<exists>x\<in>set sep. isM x" and ne: "pre \<noteq> []"
  shows "\<not> prefix sep (pre @ sep @ post)"
proof
  assume p: "prefix sep (pre @ sep @ post)"
  from sep obtain w c r where s: "sep = w @ c # r" and c: "isM c" and w: "\<forall>x\<in>set w. \<not> isM x"
    by (metis split_list_first_prop)
  from p obtain zs where z: "pre @ sep @ post = sep @ zs" by (auto simp: prefix_def)
  have "(sep @ zs) ! length w = c" using s by (simp add: nth_append)
  moreover have "pre @ sep @ post = (pre @ w) @ (c # r @ post)" using s by simp
  then have "(pre @ sep @ post) ! length w = (pre @ w) ! length w"
    using ne by (simp only: nth_append length_append) simp
  moreover have "(pre @ w) ! length w \<in> set (pre @ w)"
    using ne by (intro nth_mem) simp
  ultimately have "c \<in> set (pre @ w)" using z by simp
  with pre w c show False by auto
qed

lemma split_aux_prefix:
  "sep \<noteq> [] \<Longrightarrow> split_aux sep cur (sep @ post) = cur # split_aux sep [] post"
  by (cases sep) simp_all

lemma split_aux_first:
  assumes "\<forall>x\<in>set pre. \<not> isM x" and "\<exists>x\<in>set sep. isM x"
  shows "split_aux sep cur (pre @ sep @ post) = (cur @ pre) # split_aux sep [] post"
  using assms(1)
proof (induction pre arbitrary: cur)
  case Nil
  from assms(2) have ne: "sep \<noteq> []" by auto
  then show ?case by (simp add: split_aux_prefix)
next
  case (Cons p pre)
  have "\<not> prefix sep ((p # pre) @ sep @ post)"
    using Cons.prems assms(2) by (intro no_early_occurrence) auto
  then show ?case using Cons by simp
qed

lemma split_aux_ne: "split_aux sep cur s \<noteq> []"
  by (induction sep cur s rule: split_aux.induct) auto

lemma join_Cons: "xs \<noteq> [] \<Longrightarrow> join sep (x # xs) = x @ sep @ join sep xs"
  by (cases xs) auto

lemma join_split_aux: "sep \<noteq> [] \<Longrightarrow> join sep (split_aux sep cur s) = cur @ s"
proof (induction sep cur s rule: split_aux.induct)
  case (1 sep cur)
  then show ?case by simp
next
  case (2 sep cur c cs)
  show ?case
  proof (cases "prefix sep (c # cs)")
    case True
    then obtain zs where z: "c # cs = sep @ zs" by (auto simp: prefix_def)
    then have d: "drop (length sep) (c # cs) = zs" by (metis append_eq_conv_conj)
    have ih: "join sep (split_aux sep [] zs) = zs" using "2.IH"(1) "2.prems" True d by simp
    have "split_aux sep cur (sep @ zs) = cur # split_aux sep [] zs"
      by (rule split_aux_prefix[OF "2.prems"])
    then have "join sep (split_aux sep cur (sep @ zs)) = cur @ sep @ join sep (split_aux sep [] zs)"
      by (simp only: join_Cons[OF split_aux_ne])
    then show ?thesis by (simp only: z ih)
  next
    case False
    with 2 show ?thesis by simp
  qed
qed

lemma prefix_first_chunk:
  assumes "\<forall>x\<in>set c0. \<not> isM x" and "\<exists>x\<in>set g. isM x"
  shows "prefix g (c0 @ g @ rest) \<longleftrightarrow> c0 = []"
  using no_early_occurrence[OF assms(1,2), of rest] by auto

lemma suffix_last_chunk:
  assumes "\<forall>x\<in>set c. \<not> isM x" and "\<exists>x\<in>set g. isM x"
  shows "suffix g (pre @ g @ c) \<longleftrightarrow> c = []"
proof
  assume s: "suffix g (pre @ g @ c)"
  show "c = []"
  proof (rule ccontr)
    assume ne: "c \<noteq> []"
    have "\<not> prefix (rev g) (rev c @ rev g @ rev pre)"
      using assms ne by (intro no_early_occurrence[where isM = isM]) auto
    moreover from s have "prefix (rev g) (rev (pre @ g @ c))"
      by (simp only: suffix_to_prefix)
    ultimately show False by simp
  qed
next
  assume "c = []"
  then show "suffix g (pre @ g @ c)" by (simp add: suffix_def)
qed

subsection \<open>The matches of a line and the pieces between them\<close>

lemma chunks_of_ne: "chunks_of isM cur s \<noteq> []"
proof (induction isM cur s rule: chunks_of.induct)
  case (1 isM cur)
  then show ?case by simp
next
  case (2 isM cur c cs)
  show ?case
  proof (cases "match_at isM (c # cs)")
    case None
    from "2.IH"(1)[OF None] None show ?thesis by simp
  next
    case (Some n)
    then show ?thesis by simp
  qed
qed

lemma chunks_of_no_mark:
  "\<forall>x\<in>set cur. \<not> isM x \<Longrightarrow> \<forall>c\<in>set (chunks_of isM cur s). \<forall>x\<in>set c. \<not> isM x"
proof (induction isM cur s rule: chunks_of.induct)
  case (1 isM cur)
  then show ?case by simp
next
  case (2 isM cur c cs)
  show ?case
  proof (cases "match_at isM (c # cs)")
    case None
    then have "\<not> isM c" by (rule match_at_None)
    with "2.prems" have "\<forall>x\<in>set (cur @ [c]). \<not> isM x" by simp
    from "2.IH"(1)[OF None this] None show ?thesis by simp
  next
    case (Some n)
    have "\<forall>c\<in>set (chunks_of isM [] (drop n (c # cs))). \<forall>x\<in>set c. \<not> isM x"
      using "2.IH"(2)[OF Some] by simp
    with "2.prems" Some show ?thesis by simp
  qed
qed

lemma chunks_of_no_match:
  "finditer_from isM pos s = [] \<Longrightarrow> chunks_of isM cur s = [cur @ s]"
proof (induction isM pos s arbitrary: cur rule: finditer_from.induct)
  case (1 isM pos)
  show ?case by simp
next
  case (2 isM pos c cs)
  show ?case
  proof (cases "match_at isM (c # cs)")
    case None
    with "2.prems" have "finditer_from isM (Suc pos) cs = []" by simp
    from "2.IH"(1)[OF None this, of "cur @ [c]"] None show ?thesis by simp
  next
    case (Some n)
    with "2.prems" show ?thesis by simp
  qed
qed

lemma length_chunks_of:
  "length (chunks_of isM cur s) = Suc (length (finditer_from isM pos s))"
proof (induction isM pos s arbitrary: cur rule: finditer_from.induct)
  case (1 isM pos)
  show ?case by simp
next
  case (2 isM pos c cs)
  show ?case
  proof (cases "match_at isM (c # cs)")
    case None
    from "2.IH"(1)[OF None, of "cur @ [c]"] None show ?thesis by simp
  next
    case (Some n)
    from "2.IH"(2)[OF Some, of "[]"] Some show ?thesis by simp
  qed
qed

lemma weave_append: "weave (a @ b) xs = a @ weave b xs"
  by (cases xs) auto

lemma weave_last:
  "xs \<noteq> [] \<Longrightarrow> \<exists>pre. weave c xs = pre @ fst (last xs) @ snd (last xs)"
proof (induction c xs rule: weave.induct)
  case (1 c)
  then show ?case by simp
next
  case (2 c g c' xs)
  show ?case
  proof (cases "xs = []")
    case True
    then show ?thesis by simp
  next
    case False
    with 2 obtain pre where "weave c' xs = pre @ fst (last xs) @ snd (last xs)" by blast
    with False show ?thesis by (intro exI[of _ "c @ g @ pre"]) simp
  qed
qed

lemma weave_chunks_of:
  "weave (hd (chunks_of isM cur s))
     (zip (map group (finditer_from isM pos s)) (tl (chunks_of isM cur s))) = cur @ s"
proof (induction isM pos s arbitrary: cur rule: finditer_from.induct)
  case (1 isM pos)
  show ?case by simp
next
  case (2 isM pos c cs)
  show ?case
  proof (cases "match_at isM (c # cs)")
    case None
    from "2.IH"(1)[OF None, of "cur @ [c]"] None show ?thesis by simp
  next
    case (Some n)
    define r where "r = drop n (c # cs)"
    define g where "g = take n (c # cs)"
    have eq: "c # cs = g @ r" by (simp add: g_def r_def)
    have ih: "weave (hd (chunks_of isM [] r))
       (zip (map group (finditer_from isM (pos + n) r)) (tl (chunks_of isM [] r))) = r"
      using "2.IH"(2)[OF Some, of "[]"] by (simp add: r_def)
    have fi: "finditer_from isM pos (c # cs) =
       \<lparr>m_start = pos, m_end = pos + n, group = g\<rparr> # finditer_from isM (pos + n) r"
      using Some by (simp add: g_def r_def)
    have ch: "chunks_of isM cur (c # cs) = cur # chunks_of isM [] r"
      using Some by (simp add: r_def)
    obtain c' cs' where cc: "chunks_of isM [] r = c' # cs'"
      using chunks_of_ne[of isM "[]" r] by (cases "chunks_of isM [] r") auto
    show ?thesis unfolding fi ch using ih cc eq by simp
  qed
qed

lemma finditer_from_group:
  "\<forall>m\<in>set (finditer_from isM pos s). \<exists>x\<in>set (group m). isM x"
proof (induction isM pos s rule: finditer_from.induct)
  case (1 isM pos)
  show ?case by simp
next
  case (2 isM pos c cs)
  show ?case
  proof (cases "match_at isM (c # cs)")
    case None
    from "2.IH"(1)[OF None] None show ?thesis by simp
  next
    case (Some n)
    from "2.IH"(2)[OF Some] match_at_Some(3)[OF Some] Some show ?thesis by simp
  qed
qed

lemma finditer_from_start:
  "\<forall>m\<in>set (finditer_from isM pos s). pos \<le> m_start m"
proof (induction isM pos s rule: finditer_from.induct)
  case (1 isM pos)
  show ?case by simp
next
  case (2 isM pos c cs)
  show ?case
  proof (cases "match_at isM (c # cs)")
    case None
    from "2.IH"(1)[OF None] None show ?thesis by auto
  next
    case (Some n)
    from "2.IH"(2)[OF Some] Some show ?thesis by auto
  qed
qed

lemma finditer_from_distinct: "distinct (finditer_from isM pos s)"
proof (induction isM pos s rule: finditer_from.induct)
  case (1 isM pos)
  show ?case by simp
next
  case (2 isM pos c cs)
  show ?case
  proof (cases "match_at isM (c # cs)")
    case None
    from "2.IH"(1)[OF None] None show ?thesis by simp
  next
    case (Some n)
    have "0 < n" using Some by (rule match_at_pos)
    moreover have "\<forall>m\<in>set (finditer_from isM (pos + n) (drop n (c # cs))). pos + n \<le> m_start m"
      by (rule finditer_from_start)
    ultimately have "\<lparr>m_start = pos, m_end = pos + n, group = take n (c # cs)\<rparr>
         \<notin> set (finditer_from isM (pos + n) (drop n (c # cs)))"
      by fastforce
    with "2.IH"(2)[OF Some] Some show ?thesis by simp
  qed
qed

lemma finditer_from_no_mark: "\<forall>x\<in>set s. \<not> isM x \<Longrightarrow> finditer_from isM pos s = []"
proof (induction s arbitrary: pos)
  case Nil
  show ?case by simp
next
  case (Cons c cs)
  then have "match_at isM (c # cs) = None" by (intro match_at_no_mark) simp
  with Cons show ?case by simp
qed

lemma hd_chunks_of_length:
  "finditer_from isM pos s = m # ms \<Longrightarrow>
     length (hd (chunks_of isM cur s)) = length cur + (m_start m - pos)"
proof (induction isM pos s arbitrary: cur rule: finditer_from.induct)
  case (1 isM pos)
  then show ?case by simp
next
  case (2 isM pos c cs)
  show ?case
  proof (cases "match_at isM (c # cs)")
    case None
    with "2.prems" have f: "finditer_from isM (Suc pos) cs = m # ms" by simp
    then have "Suc pos \<le> m_start m"
      using finditer_from_start[of isM "Suc pos" cs] by simp
    with "2.IH"(1)[OF None f, of "cur @ [c]"] None show ?thesis by simp
  next
    case (Some n)
    with "2.prems" have "m_start m = pos" by auto
    with Some show ?thesis by simp
  qed
qed

lemma separated_inner:
  "separated (finditer_from isM pos s) \<Longrightarrow>
     \<forall>c\<in>set (butlast (tl (chunks_of isM cur s))). c \<noteq> []"
proof (induction isM pos s arbitrary: cur rule: finditer_from.induct)
  case (1 isM pos)
  show ?case by simp
next
  case (2 isM pos c cs)
  show ?case
  proof (cases "match_at isM (c # cs)")
    case None
    with "2.prems" have "separated (finditer_from isM (Suc pos) cs)" by simp
    from "2.IH"(1)[OF None this, of "cur @ [c]"] None show ?thesis by simp
  next
    case (Some n)
    define r where "r = drop n (c # cs)"
    define g where "g = take n (c # cs)"
    have fi: "finditer_from isM pos (c # cs) =
       \<lparr>m_start = pos, m_end = pos + n, group = g\<rparr> # finditer_from isM (pos + n) r"
      using Some by (simp add: g_def r_def)
    have ch: "chunks_of isM cur (c # cs) = cur # chunks_of isM [] r"
      using Some by (simp add: r_def)
    obtain c' cs' where cc: "chunks_of isM [] r = c' # cs'"
      using chunks_of_ne[of isM "[]" r] by (cases "chunks_of isM [] r") auto
    show ?thesis
    proof (cases "finditer_from isM (pos + n) r")
      case Nil
      then have "length (chunks_of isM [] r) = 1"
        using length_chunks_of[of isM "[]" r "pos + n"] by simp
      with cc ch show ?thesis by simp
    next
      case (Cons m' ms')
      from "2.prems" fi Cons have lt: "pos + n < m_start m'" and sep: "separated (finditer_from isM (pos + n) r)"
        by simp_all
      have "length (hd (chunks_of isM [] r)) = m_start m' - (pos + n)"
        using hd_chunks_of_length[OF Cons, of "[]"] by simp
      with lt cc have c': "c' \<noteq> []" by auto
      have "\<forall>c\<in>set (butlast (tl (chunks_of isM [] r))). c \<noteq> []"
        using "2.IH"(2)[OF Some, of "[]"] sep by (simp add: r_def)
      with cc have "\<forall>c\<in>set (butlast cs'). c \<noteq> []" by simp
      with c' cc ch show ?thesis by (auto simp: butlast.simps(2) split: if_splits)
    qed
  qed
qed

lemma punctuation_run_single_match:
  assumes ws: "\<forall>x\<in>set ws. isspace x \<and> \<not> isM x" and ne: "ms \<noteq> []"
    and ms: "\<forall>x\<in>set ms. isM x \<and> \<not> isspace x"
    and ws': "\<forall>x\<in>set ws'. isspace x \<and> \<not> isM x"
  shows "finditer isM (ws @ ms @ ws') =
     [\<lparr>m_start = 0, m_end = length (ws @ ms @ ws'), group = ws @ ms @ ws'\<rparr>]"
proof -
  define line where "line = ws @ ms @ ws'"
  have m: "match_at isM line = Some (length line)"
    unfolding line_def by (rule match_at_run[OF assms])
  from ne obtain c cs where l: "line = c # cs" unfolding line_def by (cases "ws @ ms @ ws'") auto
  have "finditer_from isM 0 (c # cs) =
      [\<lparr>m_start = 0, m_end = length (c # cs), group = c # cs\<rparr>]"
    using m unfolding l by simp
  then show ?thesis unfolding finditer_def line_def[symmetric] l .
qed

lemma sublines_chunks_of:
  assumes mk: "\<And>m. mark (mk m) = group m"
  shows "\<forall>x\<in>set cur. \<not> isM x \<Longrightarrow>
     sublines (cur @ s) (map mk (finditer_from isM pos s)) =
       Inr (butlast (chunks_of isM cur s), last (chunks_of isM cur s))"
proof (induction isM pos s arbitrary: cur rule: finditer_from.induct)
  case (1 isM pos)
  then show ?case by simp
next
  case (2 isM pos c cs)
  show ?case
  proof (cases "match_at isM (c # cs)")
    case None
    then have "\<not> isM c" by (rule match_at_None)
    with "2.prems" have "\<forall>x\<in>set (cur @ [c]). \<not> isM x" by simp
    from "2.IH"(1)[OF None this] None show ?thesis by simp
  next
    case (Some n)
    define g where "g = take n (c # cs)"
    define r where "r = drop n (c # cs)"
    have g: "\<exists>x\<in>set g. isM x" unfolding g_def using match_at_Some(3)[OF Some] .
    then have gne: "g \<noteq> []" by auto
    have eq: "c # cs = g @ r" by (simp add: g_def r_def)
    have sp: "split (cur @ g @ r) g = Inr (cur # split_aux g [] r)"
      unfolding split_def using split_aux_first[OF "2.prems" g, of "[]" r] gne by simp
    have jn: "join g (split_aux g [] r) = r"
      using join_split_aux[OF gne, of "[]" r] by simp
    have ih: "sublines r (map mk (finditer_from isM (pos + n) r)) =
       Inr (butlast (chunks_of isM [] r), last (chunks_of isM [] r))"
      using "2.IH"(2)[OF Some, of "[]"] by (simp add: r_def)
    have fi: "finditer_from isM pos (c # cs) =
       \<lparr>m_start = pos, m_end = pos + n, group = g\<rparr> # finditer_from isM (pos + n) r"
      using Some by (simp add: g_def r_def)
    have ch: "chunks_of isM cur (c # cs) = cur # chunks_of isM [] r"
      using Some by (simp add: r_def)
    show ?thesis
      unfolding fi ch unfolding eq using sp jn ih mk by (simp add: chunks_of_ne)
  qed
qed

lemma mark_space_mark_append: "mark_space_mark isM ys \<Longrightarrow> mark_space_mark isM (xs @ ys)"
  by (induction xs) auto

lemma mark_space_mark_intro:
  assumes c: "isM c" and ws: "ws \<noteq> []" "\<forall>x\<in>set ws. isspace x"
    and r: "r \<noteq> []" "\<not> isspace (hd r)" "isM (hd r)"
  shows "mark_space_mark isM (pre @ c # ws @ r)"
proof -
  from r obtain a r' where a: "r = a # r'" by (cases r) auto
  with r have na: "\<not> isspace a" by simp
  have t: "takeWhile isspace (ws @ r) = ws"
    using ws a na by (simp add: takeWhile_append2)
  have d: "dropWhile isspace (ws @ r) = r"
    using ws a na by (simp add: dropWhile_append2)
  have "mark_space_mark isM (c # ws @ r)" using c ws r t d by simp
  then show ?thesis by (rule mark_space_mark_append)
qed

lemma backtrack_before_marks:
  assumes nosp: "\<forall>x. isM x \<longrightarrow> \<not> isspace x"
  shows "k < length (takeWhile isspace s) \<Longrightarrow> backtrack isM s k = None"
proof (induction k)
  case 0
  then obtain c cs where s: "s = c # cs" and "isspace c" by (cases s) (auto split: if_splits)
  with nosp have "\<not> isM c" by blast
  with s show ?case by simp
next
  case (Suc k)
  let ?w = "takeWhile isspace s"
  have le: "length ?w \<le> length s" by (rule length_takeWhile_le)
  with Suc.prems have lt: "Suc k < length s" by simp
  have "s ! Suc k = ?w ! Suc k" using Suc.prems by (simp add: takeWhile_nth)
  moreover have "?w ! Suc k \<in> set ?w" using Suc.prems by simp
  ultimately have "isspace (s ! Suc k)" by (metis set_takeWhileD)
  with nosp have "\<not> isM (s ! Suc k)" by blast
  moreover have "drop (Suc k) s = s ! Suc k # drop (Suc (Suc k)) s"
    using lt by (simp add: Cons_nth_drop_Suc)
  ultimately have "takeWhile isM (drop (Suc k) s) = []" by simp
  moreover have "backtrack isM s k = None" using Suc by simp
  ultimately show ?case by simp
qed

lemma match_at_shape:
  assumes nosp: "\<forall>x. isM x \<longrightarrow> \<not> isspace x" and m: "match_at isM s = Some n"
  shows "takeWhile isM (dropWhile isspace s) \<noteq> []" (is "?mr \<noteq> []")
    and "n = length (takeWhile isspace s) + length (takeWhile isM (dropWhile isspace s)) +
           length (takeWhile isspace (dropWhile isM (dropWhile isspace s)))"
    and "drop n s = dropWhile isspace (dropWhile isM (dropWhile isspace s))"
proof -
  let ?w = "takeWhile isspace s"
  have d1: "drop (length ?w) s = dropWhile isspace s" by (simp add: dropWhile_eq_drop)
  have b: "backtrack isM s (length ?w) = Some n" using m by (simp add: match_at_def)
  show ne: "?mr \<noteq> []"
  proof
    assume e: "?mr = []"
    show False
    proof (cases "length ?w")
      case 0
      with b e d1 show False by simp
    next
      case (Suc k)
      then have "backtrack isM s k = None"
        using backtrack_before_marks[OF nosp, of k s] by simp
      with b e d1 Suc show False by simp
    qed
  qed
  have d2: "drop (length ?w + length ?mr) s = dropWhile isM (dropWhile isspace s)"
    by (metis d1 drop_drop add.commute dropWhile_eq_drop)
  show n: "n = length ?w + length ?mr +
           length (takeWhile isspace (dropWhile isM (dropWhile isspace s)))"
    using backtrack_here[of isM "length ?w" s] ne b d1 d2 by simp
  show "drop n s = dropWhile isspace (dropWhile isM (dropWhile isspace s))"
    unfolding n by (metis d2 drop_drop add.commute dropWhile_eq_drop)
qed

lemma finditer_from_first_start:
  "finditer_from isM p r = m # ms \<Longrightarrow> m_start m = p \<Longrightarrow> match_at isM r \<noteq> None"
proof (cases r)
  case Nil
  assume "finditer_from isM p r = m # ms"
  with Nil show ?thesis by simp
next
  case (Cons c cs)
  assume f: "finditer_from isM p r = m # ms" and s: "m_start m = p"
  show ?thesis
  proof
    assume n: "match_at isM r = None"
    with f Cons have "finditer_from isM (Suc p) cs = m # ms" by simp
    then have "Suc p \<le> m_start m" using finditer_from_start[of isM "Suc p" cs] by simp
    with s show False by simp
  qed
qed

lemma match_not_followed:
  assumes nosp: "\<forall>x. isM x \<longrightarrow> \<not> isspace x" and m: "match_at isM s = Some n"
    and no: "\<not> mark_space_mark isM s"
  shows "match_at isM (drop n s) = None"
proof (rule ccontr)
  assume "match_at isM (drop n s) \<noteq> None"
  then obtain n2 where m2: "match_at isM (drop n s) = Some n2" by auto
  let ?w = "takeWhile isspace s" and ?s1 = "dropWhile isspace s"
  let ?mr = "takeWhile isM ?s1" and ?s2 = "dropWhile isM ?s1"
  let ?wr = "takeWhile isspace ?s2" and ?r = "dropWhile isspace ?s2"
  have r: "drop n s = ?r" by (rule match_at_shape(3)[OF nosp m])
  have mr: "?mr \<noteq> []" by (rule match_at_shape(1)[OF nosp m])
  have "0 < n2" using m2 by (rule match_at_pos)
  moreover have "n2 \<le> length (drop n s)" using match_at_Some(2)[OF m2] .
  ultimately have "drop n s \<noteq> []" by auto
  with r have rne: "?r \<noteq> []" by simp
  then have nsp: "\<not> isspace (hd ?r)" by (rule hd_dropWhile)
  then have "dropWhile isspace ?r = ?r" by (simp add: dropWhile_idem)
  with match_at_shape(1)[OF nosp m2] r have "takeWhile isM ?r \<noteq> []" by simp
  with rne have hm: "isM (hd ?r)" by (cases ?r) (auto split: if_splits)
  show False
  proof (cases "?wr = []")
    case True
    then have "?r = ?s2" by (metis takeWhile_dropWhile_id append_Nil)
    with rne hm show False using hd_dropWhile[of isM ?s1] by simp
  next
    case False
    from mr obtain mr' c where c: "?mr = mr' @ [c]" by (metis rev_exhaust)
    then have "c \<in> set ?mr" by simp
    then have ic: "isM c" by (metis set_takeWhileD)
    have "s = ?w @ ?mr @ ?wr @ ?r" by simp
    then have s: "s = (?w @ mr') @ c # ?wr @ ?r" using c by simp
    have "\<forall>x\<in>set ?wr. isspace x" by (metis set_takeWhileD)
    from mark_space_mark_intro[OF ic False this rne nsp hm, of "?w @ mr'"] s no
    show False by simp
  qed
qed

lemma separated_if_no_mark_space_mark:
  "\<forall>x. isM x \<longrightarrow> \<not> isspace x \<Longrightarrow> \<not> mark_space_mark isM s \<Longrightarrow>
     separated (finditer_from isM pos s)"
proof (induction isM pos s rule: finditer_from.induct)
  case (1 isM pos)
  show ?case by simp
next
  case (2 isM pos c cs)
  note nosp = "2.prems"(1)
  show ?case
  proof (cases "match_at isM (c # cs)")
    case None
    from "2.prems" have "\<not> mark_space_mark isM cs" by simp
    from "2.IH"(1)[OF None nosp this] None show ?thesis by simp
  next
    case (Some n)
    define r where "r = drop n (c # cs)"
    define g where "g = take n (c # cs)"
    have fi: "finditer_from isM pos (c # cs) =
       \<lparr>m_start = pos, m_end = pos + n, group = g\<rparr> # finditer_from isM (pos + n) r"
      using Some by (simp add: g_def r_def)
    have "c # cs = g @ r" by (simp add: g_def r_def)
    with "2.prems"(2) have nr: "\<not> mark_space_mark isM r"
      using mark_space_mark_append[of isM r g] by auto
    have sep: "separated (finditer_from isM (pos + n) r)"
      using "2.IH"(2)[OF Some nosp] nr by (simp add: r_def)
    have nm: "match_at isM r = None"
      unfolding r_def by (rule match_not_followed[OF nosp Some "2.prems"(2)])
    show ?thesis
    proof (cases "finditer_from isM (pos + n) r")
      case Nil
      with fi show ?thesis by simp
    next
      case (Cons m' ms')
      then have "pos + n \<le> m_start m'"
        using finditer_from_start[of isM "pos + n" r] by simp
      moreover have "m_start m' \<noteq> pos + n"
        using finditer_from_first_start[OF Cons] nm by blast
      ultimately have "pos + n < m_start m'" by simp
      with fi Cons sep show ?thesis by simp
    qed
  qed
qed

subsection \<open>What \<^verbatim>\<open>preserve\<close> returns\<close>

lemma positions_tail:
  assumes nb: "\<forall>m\<in>set ms. \<not> (m = hd matches \<and> prefix (group m) line)"
    and d: "distinct ms" and ne: "ms \<noteq> []" and l: "last ms = last matches"
    and len: "length cs = length ms"
    and e: "suffix (group (last matches)) line \<longleftrightarrow> last cs = []"
  shows "map (line_mark matches line n) ms = tail_marks n (zip (map group ms) cs)"
  using nb d ne l len e
proof (induction ms arbitrary: cs)
  case Nil
  then show ?case by simp
next
  case (Cons m ms)
  from Cons.prems(5) obtain c cs' where cs: "cs = c # cs'" and len': "length cs' = length ms"
    by (cases cs) auto
  from Cons.prems(1) have nb: "\<not> (m = hd matches \<and> prefix (group m) line)" by auto
  show ?case
  proof (cases ms)
    case Nil
    with len' have "cs' = []" by simp
    with Nil cs Cons.prems(4,6) nb show ?thesis
      by (auto simp: line_mark_def mark_position_def)
  next
    case (Cons m' ms')
    with len' obtain c' cs'' where cs': "cs' = c' # cs''" by (cases cs') auto
    from Cons Cons.prems(2,4) have "m \<noteq> last matches"
      by (metis distinct.simps(2) last_ConsR last_in_set list.distinct(1))
    with nb have p: "line_mark matches line n m = \<lparr>index = n, mark = group m, position = Pos_I\<rparr>"
      by (auto simp: line_mark_def mark_position_def)
    have "map (line_mark matches line n) ms = tail_marks n (zip (map group ms) cs')"
      using Cons.IH[of cs'] Cons.prems Cons cs cs' len' by auto
    with p Cons cs cs' show ?thesis by simp
  qed
qed

lemma preserve_line_eq:
  "preserve_line P line n =
     (let matches = finditer (is_mark P) line
      in if matches = [] then Inr ([line], [])
         else if length matches = 1 \<and> group (hd matches) = line
         then Inr ([], [\<lparr>index = n, mark = line, position = Pos_A\<rparr>])
         else Inr (chunks_of (is_mark P) [] line, map (line_mark matches line n) matches))"
proof -
  have "sublines line (map (line_mark (finditer (is_mark P) line) line n) (finditer (is_mark P) line)) =
      Inr (butlast (chunks_of (is_mark P) [] line), last (chunks_of (is_mark P) [] line))"
    using sublines_chunks_of[of "line_mark (finditer (is_mark P) line) line n" "[]" "is_mark P" line 0]
    by (simp add: line_mark_def finditer_def)
  then show ?thesis
    unfolding preserve_line_def Let_def
    by (simp add: chunks_of_ne line_mark_def[abs_def])
qed

lemma preserve_line_result: "preserve_line P line n = Inr (line_result P line n)"
  by (simp add: preserve_line_eq line_result_def Let_def)

lemma preserve_loop_results:
  "preserve_loop P n ls pt pm =
     Inr (pt @ fst (all_results P n ls), pm @ snd (all_results P n ls))"
  by (induction ls arbitrary: n pt pm) (simp_all add: preserve_line_result split: prod.splits)

lemma preserve_results:
  "preserve P text =
     Inr (filter (\<lambda>l. l \<noteq> []) (fst (all_results P 0 (str2list text))),
          snd (all_results P 0 (str2list text)))"
  by (simp add: preserve_def preserve_loop_results split: prod.splits)

lemma line_result_index: "\<forall>m\<in>set (snd (line_result P line n)). index m = n"
  by (simp add: line_result_def Let_def line_mark_def)

lemma all_results_index:
  "\<forall>m\<in>set (snd (all_results P n ls)). n \<le> index m \<and> index m < n + int (length ls)"
proof (induction ls arbitrary: n)
  case Nil
  show ?case by simp
next
  case (Cons l ls)
  from Cons[of "n + 1"] line_result_index[of P l n] show ?case by fastforce
qed

lemma line_result_no_mark:
  "\<forall>c\<in>set (fst (line_result P line n)). \<forall>x\<in>set c. \<not> is_mark P x"
proof -
  have ch: "\<forall>c\<in>set (chunks_of (is_mark P) [] line). \<forall>x\<in>set c. \<not> is_mark P x"
    by (rule chunks_of_no_mark) simp
  show ?thesis
  proof (cases "finditer (is_mark P) line = []")
    case True
    then have "chunks_of (is_mark P) [] line = [line]"
      using chunks_of_no_match[of "is_mark P" 0 line "[]"] by (simp add: finditer_def)
    with ch True show ?thesis by (simp add: line_result_def)
  next
    case False
    with ch show ?thesis by (simp add: line_result_def Let_def)
  qed
qed

lemma all_results_no_mark:
  "\<forall>c\<in>set (fst (all_results P n ls)). \<forall>x\<in>set c. \<not> is_mark P x"
proof (induction ls arbitrary: n)
  case Nil
  show ?case by simp
next
  case (Cons l ls)
  from Cons[of "n + 1"] line_result_no_mark[of P l n] show ?case by auto
qed

lemma all_results_no_match:
  "\<forall>l\<in>set ls. finditer (is_mark P) l = [] \<Longrightarrow> all_results P n ls = (ls, [])"
  by (induction ls arbitrary: n) (simp_all add: line_result_def)

lemma all_results_append:
  "all_results P n (a @ b) =
     (fst (all_results P n a) @ fst (all_results P (n + int (length a)) b),
      snd (all_results P n a) @ snd (all_results P (n + int (length a)) b))"
proof (induction a arbitrary: n)
  case Nil
  show ?case by simp
next
  case (Cons l a)
  have "n + 1 + int (length a) = n + int (length (l # a))" by simp
  with Cons[of "n + 1"] show ?case by (simp add: add.assoc)
qed

lemma line_result_chunks: "fst (line_result P line n) = fst (line_result P line n')"
  by (simp add: line_result_def Let_def)

lemma all_results_chunks: "fst (all_results P n ls) = fst (all_results P n' ls)"
proof (induction ls arbitrary: n n')
  case Nil
  show ?case by simp
next
  case (Cons l ls)
  from Cons[of "n + 1" "n' + 1"] line_result_chunks[of P l n n'] show ?case by simp
qed

lemma line_result_empty: "line_result P [] n = ([[]], [])"
  by (simp add: line_result_def finditer_def)

lemma preserve_empty_line:
  "\<exists>chunks ms ms'.
      preserve P (Lines (A @ [] # B)) = Inr (chunks, ms) \<and>
      preserve P (Lines (A @ B)) = Inr (chunks, ms') \<and>
      (\<forall>m\<in>set ms. index m \<noteq> int (length A))"
proof -
  have c: "fst (all_results P 0 (A @ [] # B)) = fst (all_results P 0 A) @ [] # fst (all_results P 0 B)"
    using all_results_chunks[of P "int (length A) + 1" B 0]
    by (simp add: all_results_append line_result_empty)
  have c': "fst (all_results P 0 (A @ B)) = fst (all_results P 0 A) @ fst (all_results P 0 B)"
    using all_results_chunks[of P "int (length A)" B 0]
    by (simp add: all_results_append)
  have m: "snd (all_results P 0 (A @ [] # B)) =
      snd (all_results P 0 A) @ snd (all_results P (int (length A) + 1) B)"
    by (simp add: all_results_append line_result_empty)
  have "\<forall>m\<in>set (snd (all_results P 0 (A @ [] # B))). index m \<noteq> int (length A)"
    unfolding m using all_results_index[of P 0 A] all_results_index[of P "int (length A) + 1" B]
    by fastforce
  then show ?thesis
    by (simp add: preserve_results c c')
qed

subsection \<open>The walk of \<^verbatim>\<open>_restore_aux\<close>\<close>

lemma restore_aux_emit:
  "ms = [] \<or> index (hd ms) \<noteq> n \<Longrightarrow>
     restore_aux (x # T) ms n = cons_result x (restore_aux T ms (n + 1))"
  by (cases ms) auto

lemma restore_aux_tail:
  assumes next_line: "ms = [] \<or> index (hd ms) \<noteq> n"
  shows "\<forall>(g, c)\<in>set (butlast xs). c \<noteq> [] \<Longrightarrow>
     restore_aux (acc # filter (\<lambda>l. l \<noteq> []) (map snd xs) @ T) (tail_marks n xs @ ms) n =
       cons_result (weave acc xs) (restore_aux T ms (n + 1))"
proof (induction xs arbitrary: acc rule: induct_list012)
  case 1
  show ?case using restore_aux_emit[OF next_line] by simp
next
  case (2 x)
  obtain g c where x: "x = (g, c)" by (cases x)
  show ?case
  proof (cases "c = []")
    case True
    then show ?thesis using x by simp
  next
    case False
    then show ?thesis using x restore_aux_emit[OF next_line, of "acc @ g @ c" T] by simp
  qed
next
  case (3 x y zs)
  obtain g c where x: "x = (g, c)" by (cases x)
  from "3.prems" x have c: "c \<noteq> []" and rest: "\<forall>(g, c)\<in>set (butlast (y # zs)). c \<noteq> []"
    by auto
  from "3.IH"(2)[OF rest, of "acc @ g @ c"] c x show ?case by (simp add: weave_append)
qed

lemma butlast_zip_inner:
  "length gs = length cs \<Longrightarrow> \<forall>c\<in>set (butlast cs). c \<noteq> [] \<Longrightarrow>
     \<forall>(g, c)\<in>set (butlast (zip gs cs)). c \<noteq> []"
  by (induction gs cs rule: list_induct2) (auto split: if_splits)

lemma weave_suffix_iff:
  assumes len: "length gs = length cs" and ne: "gs \<noteq> []"
    and noM: "\<forall>x\<in>set (last cs). \<not> isM x" and grp: "\<exists>x\<in>set (last gs). isM x"
  shows "suffix (last gs) (weave c0 (zip gs cs)) \<longleftrightarrow> last cs = []"
proof -
  from len ne have z: "zip gs cs \<noteq> []" by (cases gs; cases cs) auto
  from len ne have l: "last (zip gs cs) = (last gs, last cs)"
    by (metis last_zip length_0_conv)
  from weave_last[OF z, of c0] l obtain pre where
    "weave c0 (zip gs cs) = pre @ last gs @ last cs" by auto
  then show ?thesis using suffix_last_chunk[OF noM grp, of pre] by simp
qed

lemma restore_general:
  assumes m: "matches = m1 # mrest" and d: "distinct matches"
    and len: "length cs = length matches"
    and W: "weave c0 (zip (map group matches) cs) = line"
    and noM: "\<forall>c\<in>set (c0 # cs). \<forall>x\<in>set c. \<not> isM x"
    and grp: "\<forall>m\<in>set matches. \<exists>x\<in>set (group m). isM x"
    and inner: "\<forall>c\<in>set (butlast cs). c \<noteq> []"
    and notA: "\<not> (length matches = 1 \<and> group (hd matches) = line)"
    and nxt: "ms = [] \<or> index (hd ms) \<noteq> n"
  shows "restore_aux (filter (\<lambda>l. l \<noteq> []) (c0 # cs) @ T)
           (map (line_mark matches line n) matches @ ms) n =
         cons_result line (restore_aux T ms (n + 1))"
proof -
  from len m obtain c1 cs' where cs: "cs = c1 # cs'" and len': "length cs' = length mrest"
    by (cases cs) auto
  have lg: "last (map group matches) = group (last matches)"
    using m by (simp add: last_map)
  have E: "suffix (group (last matches)) line \<longleftrightarrow> last cs = []"
  proof -
    have "\<forall>x\<in>set (last cs). \<not> isM x" using noM cs by (metis last_in_set list.distinct(1) list.set_intros(2))
    moreover have "\<exists>x\<in>set (last (map group matches)). isM x"
      using grp m lg by (metis last_in_set list.distinct(1))
    ultimately show ?thesis
      using weave_suffix_iff[of "map group matches" cs isM c0] len m W lg by simp
  qed
  have L: "line = c0 @ group m1 @ weave c1 (zip (map group mrest) cs')"
    using W m cs by simp
  have B: "prefix (group m1) line \<longleftrightarrow> c0 = []"
    unfolding L using prefix_first_chunk[of c0 isM "group m1"] noM grp m by simp
  show ?thesis
  proof (cases "c0 = []")
    case False
    have "map (line_mark matches line n) matches = tail_marks n (zip (map group matches) cs)"
    proof (rule positions_tail)
      show "\<forall>m\<in>set matches. \<not> (m = hd matches \<and> prefix (group m) line)"
        using B False m by simp
      show "distinct matches" by (rule d)
      show "matches \<noteq> []" using m by simp
      show "last matches = last matches" ..
      show "length cs = length matches" by (rule len)
      show "suffix (group (last matches)) line \<longleftrightarrow> last cs = []" by (rule E)
    qed
    moreover have "map snd (zip (map group matches) cs) = cs" using len by simp
    moreover have "\<forall>(g, c)\<in>set (butlast (zip (map group matches) cs)). c \<noteq> []"
      using butlast_zip_inner[of "map group matches" cs] len inner by simp
    ultimately show ?thesis
      using restore_aux_tail[OF nxt, of "zip (map group matches) cs" c0 T] False W by simp
  next
    case True
    have p1: "line_mark matches line n m1 = \<lparr>index = n, mark = group m1, position = Pos_B\<rparr>"
      using B True m by (simp add: line_mark_def mark_position_def)
    have c1: "c1 \<noteq> []"
    proof (cases mrest)
      case Nil
      with len' have "cs' = []" by simp
      with L True Nil have "line = group m1 @ c1" by simp
      with notA m Nil show ?thesis by auto
    next
      case (Cons a list)
      with len' have "cs' \<noteq> []" by auto
      with inner cs show ?thesis by simp
    qed
    have rest: "map (line_mark matches line n) mrest = tail_marks n (zip (map group mrest) cs')"
    proof (cases mrest)
      case Nil
      then show ?thesis by simp
    next
      case (Cons a list)
      show ?thesis
      proof (rule positions_tail)
        show "\<forall>m\<in>set mrest. \<not> (m = hd matches \<and> prefix (group m) line)"
          using d m by auto
        show "distinct mrest" using d m by simp
        show "mrest \<noteq> []" using Cons by simp
        show "last mrest = last matches" using m Cons by simp
        show "length cs' = length mrest" by (rule len')
        show "suffix (group (last matches)) line \<longleftrightarrow> last cs' = []"
          using E cs len' Cons by auto
      qed
    qed
    have sn: "map snd (zip (map group mrest) cs') = cs'" using len' by simp
    have inn: "\<forall>(g, c)\<in>set (butlast (zip (map group mrest) cs')). c \<noteq> []"
    proof (rule butlast_zip_inner)
      show "length (map group mrest) = length cs'" using len' by simp
      show "\<forall>c\<in>set (butlast cs'). c \<noteq> []" using inner cs by (auto split: if_splits)
    qed
    have "restore_aux ((group m1 @ c1) # filter (\<lambda>l. l \<noteq> []) cs' @ T)
            (tail_marks n (zip (map group mrest) cs') @ ms) n =
          cons_result (weave (group m1 @ c1) (zip (map group mrest) cs')) (restore_aux T ms (n + 1))"
      using restore_aux_tail[OF nxt inn, of "group m1 @ c1" T] sn by simp
    then show ?thesis
      using True c1 cs m p1 rest L by (simp add: weave_append)
  qed
qed

lemma restore_line:
  assumes ne: "line \<noteq> []" and sep: "separated (finditer (is_mark P) line)"
    and nxt: "ms = [] \<or> index (hd ms) \<noteq> n"
  shows "restore_aux (filter (\<lambda>l. l \<noteq> []) (fst (line_result P line n)) @ T)
           (snd (line_result P line n) @ ms) n =
         cons_result line (restore_aux T ms (n + 1))"
proof -
  define matches where "matches = finditer (is_mark P) line"
  define chunks where "chunks = chunks_of (is_mark P) [] line"
  consider (none) "matches = []"
    | (alone) "matches \<noteq> []" "length matches = 1 \<and> group (hd matches) = line"
    | (general) "matches \<noteq> []" "\<not> (length matches = 1 \<and> group (hd matches) = line)"
    by blast
  then show ?thesis
  proof cases
    case none
    then show ?thesis
      using ne restore_aux_emit[OF nxt, of line T]
      by (simp add: line_result_def matches_def)
  next
    case alone
    then show ?thesis
      by (simp add: line_result_def matches_def)
  next
    case general
    then obtain m1 mrest where m: "matches = m1 # mrest" by (cases matches) auto
    obtain c0 cs where ch: "chunks = c0 # cs"
      using chunks_of_ne[of "is_mark P" "[]" line] unfolding chunks_def
      by (cases "chunks_of (is_mark P) [] line") auto
    have len: "length cs = length matches"
      using length_chunks_of[of "is_mark P" "[]" line 0] ch
      by (simp add: chunks_def matches_def finditer_def)
    have W: "weave c0 (zip (map group matches) cs) = line"
      using weave_chunks_of[of "is_mark P" "[]" line 0] ch
      by (simp add: chunks_def matches_def finditer_def)
    have noM: "\<forall>c\<in>set (c0 # cs). \<forall>x\<in>set c. \<not> is_mark P x"
      using chunks_of_no_mark[of "[]" "is_mark P" line] ch by (simp add: chunks_def)
    have grp: "\<forall>m\<in>set matches. \<exists>x\<in>set (group m). is_mark P x"
      unfolding matches_def finditer_def by (rule finditer_from_group)
    have d: "distinct matches"
      unfolding matches_def finditer_def by (rule finditer_from_distinct)
    have inner: "\<forall>c\<in>set (butlast cs). c \<noteq> []"
      using separated_inner[of "is_mark P" 0 line "[]"] sep ch
      by (simp add: chunks_def finditer_def)
    have "restore_aux (filter (\<lambda>l. l \<noteq> []) (c0 # cs) @ T)
           (map (line_mark matches line n) matches @ ms) n =
         cons_result line (restore_aux T ms (n + 1))"
      by (rule restore_general[OF m d len W noM grp inner general(2) nxt])
    moreover have "line_result P line n = (c0 # cs, map (line_mark matches line n) matches)"
      using general ch by (simp add: line_result_def matches_def[symmetric] chunks_def[symmetric])
    ultimately show ?thesis by simp
  qed
qed

lemma restore_all:
  assumes "\<forall>l\<in>set ls. l \<noteq> [] \<and> separated (finditer (is_mark P) l)"
  shows "restore_aux (filter (\<lambda>l. l \<noteq> []) (fst (all_results P n ls)) @ T)
           (snd (all_results P n ls)) n = Inr (ls @ T)"
  using assms
proof (induction ls arbitrary: n)
  case Nil
  show ?case by simp
next
  case (Cons l ls)
  let ?ms = "snd (all_results P (n + 1) ls)"
  have nxt: "?ms = [] \<or> index (hd ?ms) \<noteq> n"
  proof (cases ?ms)
    case Nil
    then show ?thesis by simp
  next
    case (Cons a list)
    then have "a \<in> set ?ms" by simp
    then have "n + 1 \<le> index a" using all_results_index[of P "n + 1" ls] by blast
    with Cons show ?thesis by simp
  qed
  from Cons.prems have l: "l \<noteq> []" "separated (finditer (is_mark P) l)" by simp_all
  have ih: "restore_aux (filter (\<lambda>l. l \<noteq> []) (fst (all_results P (n + 1) ls)) @ T) ?ms (n + 1)
      = Inr (ls @ T)"
    using Cons.IH[of "n + 1"] Cons.prems by simp
  show ?case
    using restore_line[OF l nxt, of "filter (\<lambda>l. l \<noteq> []) (fst (all_results P (n + 1) ls)) @ T"]
      ih by simp
qed

lemma restore_preserve_separated:
  assumes "\<forall>l\<in>set L. l \<noteq> [] \<and> separated (finditer (is_mark P) l)"
  shows "\<exists>chunks ms. preserve P (Lines L) = Inr (chunks, ms) \<and>
           restore (Lines chunks) ms = Inr L"
  using restore_all[OF assms, of 0 "[]"] by (simp add: preserve_results restore_def)

lemma restore_preserve_without_whitespace_marks:
  assumes nosp: "\<forall>x. is_mark P x \<longrightarrow> \<not> isspace x"
    and ls: "\<forall>l\<in>set L. l \<noteq> [] \<and> \<not> mark_space_mark (is_mark P) l"
  shows "\<exists>chunks ms. preserve P (Lines L) = Inr (chunks, ms) \<and>
           restore (Lines chunks) ms = Inr L"
proof -
  have "\<forall>l\<in>set L. l \<noteq> [] \<and> separated (finditer (is_mark P) l)"
    using ls separated_if_no_mark_space_mark[OF nosp] by (simp add: finditer_def)
  from restore_all[OF this, of 0 "[]"] show ?thesis
    by (simp add: preserve_results restore_def)
qed

lemma cons_result_Inr: "cons_result x r = Inr out \<Longrightarrow> \<exists>out'. r = Inr out' \<and> out = x # out'"
  by (cases r) auto

lemma cons_result_Inl: "cons_result x r = Inl e \<Longrightarrow> r = Inl e"
  by (cases r) auto

lemma cons_result_returns: "(\<exists>out. cons_result x r = Inr out) \<longleftrightarrow> (\<exists>out. r = Inr out)"
  by (cases r) auto

lemma restore_aux_Inr:
  "restore_aux tx ms n = Inr out \<Longrightarrow>
     (\<forall>m\<in>set ms. n \<le> index m \<and> index m < n + int (length out)) \<and>
     sorted (map index ms) \<and>
     length out \<le> length tx + count_alone ms \<and>
     (tx \<noteq> [] \<longrightarrow> out \<noteq> [])"
proof (induction tx ms n arbitrary: out rule: restore_aux.induct)
  case (1 tx n)
  then show ?case by (simp add: count_alone_def)
next
  case (2 tx m ms n)
  show ?case
  proof (cases "index m = n")
    case False
    with "2.prems" obtain t0 ts where tx: "tx = t0 # ts"
      by (cases tx) auto
    with "2.prems" False obtain out' where r: "restore_aux ts (m # ms) (n + 1) = Inr out'"
      and out: "out = t0 # out'"
      by (auto dest: cons_result_Inr)
    from "2.IH"(5)[OF False tx r] out tx show ?thesis by (auto simp: count_alone_def)
  next
    case True
    show ?thesis
    proof (cases "position m")
      case Pos_B
      with "2.prems" True obtain t0 ts where tx: "tx = t0 # ts"
        by (cases tx) auto
      with "2.prems" True Pos_B have r: "restore_aux ((mark m @ t0) # ts) ms n = Inr out" by simp
      from "2.IH"(1)[OF True Pos_B tx r] True tx Pos_B show ?thesis
        by (auto simp: count_alone_def)
    next
      case Pos_E
      with "2.prems" True obtain t0 ts where tx: "tx = t0 # ts"
        by (cases tx) auto
      with "2.prems" True Pos_E obtain out' where r: "restore_aux ts ms (n + 1) = Inr out'"
        and out: "out = (t0 @ mark m) # out'"
        by (auto dest: cons_result_Inr)
      from "2.IH"(2)[OF True Pos_E tx r] True tx Pos_E out show ?thesis
        by (fastforce simp: count_alone_def)
    next
      case Pos_A
      with "2.prems" True obtain out' where r: "restore_aux tx ms (n + 1) = Inr out'"
        and out: "out = mark m # out'"
        by (auto dest: cons_result_Inr)
      from "2.IH"(3)[OF True Pos_A r] True Pos_A out show ?thesis
        by (fastforce simp: count_alone_def)
    next
      case Pos_I
      with "2.prems" True obtain t0 ts' where tx: "tx = t0 # ts'"
        by (cases tx) auto
      with "2.prems" True Pos_I obtain t1 ts where ts': "ts' = t1 # ts"
        by (cases ts') auto
      with "2.prems" True Pos_I tx have r: "restore_aux ((t0 @ mark m @ t1) # ts) ms n = Inr out"
        by simp
      from "2.IH"(4)[OF True Pos_I tx ts' r] True tx ts' Pos_I show ?thesis
        by (auto simp: count_alone_def)
    qed
  qed
qed

lemma restore_aux_IndexError: "restore_aux tx ms n = Inl e \<Longrightarrow> e = IndexError"
proof (induction tx ms n rule: restore_aux.induct)
  case (1 tx n)
  then show ?case by simp
next
  case (2 tx m ms n)
  show ?case
  proof (cases "index m = n")
    case False
    show ?thesis
    proof (cases tx)
      case Nil
      with "2.prems" False show ?thesis by simp
    next
      case (Cons t0 ts)
      with "2.prems" False have "restore_aux ts (m # ms) (n + 1) = Inl e"
        by (auto dest: cons_result_Inl)
      with "2.IH"(5)[OF False Cons] show ?thesis by simp
    qed
  next
    case True
    show ?thesis
    proof (cases "position m")
      case Pos_B
      show ?thesis
      proof (cases tx)
        case Nil
        with "2.prems" True Pos_B show ?thesis by simp
      next
        case (Cons t0 ts)
        with "2.prems" True Pos_B "2.IH"(1)[OF True Pos_B Cons] show ?thesis by simp
      qed
    next
      case Pos_E
      show ?thesis
      proof (cases tx)
        case Nil
        with "2.prems" True Pos_E show ?thesis by simp
      next
        case (Cons t0 ts)
        with "2.prems" True Pos_E have "restore_aux ts ms (n + 1) = Inl e"
          by (auto dest: cons_result_Inl)
        with "2.IH"(2)[OF True Pos_E Cons] show ?thesis by simp
      qed
    next
      case Pos_A
      with "2.prems" True have "restore_aux tx ms (n + 1) = Inl e"
        by (auto dest: cons_result_Inl)
      with "2.IH"(3)[OF True Pos_A] show ?thesis by simp
    next
      case Pos_I
      show ?thesis
      proof (cases tx)
        case Nil
        with "2.prems" True Pos_I show ?thesis by simp
      next
        case (Cons t0 ts)
        show ?thesis
        proof (cases ts)
          case Nil
          with Cons "2.prems" True Pos_I show ?thesis by simp
        next
          case ts: (Cons t1 ts')
          with Cons "2.prems" True Pos_I "2.IH"(4)[OF True Pos_I Cons ts] show ?thesis by simp
        qed
      qed
    qed
  qed
qed

lemma placeable_step:
  assumes "index m \<noteq> n"
  shows "placeable k n (m # ms) = placeable (k - 1) (n + 1) (m # ms)"
proof -
  have a: "k - 1 - (index m - (n + 1)) = k - (index m - n)" by simp
  have b: "n + 1 \<le> index m \<longleftrightarrow> n \<le> index m" using assms by auto
  show ?thesis by (simp only: placeable.simps a b)
qed

lemma placeable_no_chunk: "index m \<noteq> n \<Longrightarrow> \<not> placeable 0 n (m # ms)"
  by (auto simp: Let_def split: position.splits)

lemma restore_aux_placeable:
  "(\<exists>out. restore_aux tx ms n = Inr out) \<longleftrightarrow> placeable (int (length tx)) n ms"
proof (induction tx ms n rule: restore_aux.induct)
  case (1 tx n)
  then show ?case by simp
next
  case (2 tx m ms n)
  show ?case
  proof (cases "index m = n")
    case False
    show ?thesis
    proof (cases tx)
      case Nil
      with False placeable_no_chunk[OF False, of ms] show ?thesis by simp
    next
      case (Cons t0 ts)
      have "(\<exists>out. restore_aux tx (m # ms) n = Inr out) \<longleftrightarrow>
          (\<exists>out. restore_aux ts (m # ms) (n + 1) = Inr out)"
        using False Cons by (simp add: cons_result_returns)
      also have "\<dots> \<longleftrightarrow> placeable (int (length ts)) (n + 1) (m # ms)"
        by (rule "2.IH"(5)[OF False Cons])
      also have "\<dots> \<longleftrightarrow> placeable (int (length tx)) n (m # ms)"
        using placeable_step[OF False, of "int (length tx)" ms] Cons by simp
      finally show ?thesis .
    qed
  next
    case True
    show ?thesis
    proof (cases "position m")
      case Pos_B
      show ?thesis
      proof (cases tx)
        case Nil
        with True Pos_B show ?thesis by simp
      next
        case (Cons t0 ts)
        with True Pos_B "2.IH"(1)[OF True Pos_B Cons] show ?thesis by simp
      qed
    next
      case Pos_E
      show ?thesis
      proof (cases tx)
        case Nil
        with True Pos_E show ?thesis by simp
      next
        case (Cons t0 ts)
        with True Pos_E "2.IH"(2)[OF True Pos_E Cons] show ?thesis
          by (simp add: cons_result_returns)
      qed
    next
      case Pos_A
      with True "2.IH"(3)[OF True Pos_A] show ?thesis
        by (simp add: cons_result_returns)
    next
      case Pos_I
      show ?thesis
      proof (cases tx)
        case Nil
        with True Pos_I show ?thesis by simp
      next
        case (Cons t0 ts)
        show ?thesis
        proof (cases ts)
          case Nil
          with Cons True Pos_I show ?thesis by simp
        next
          case ts: (Cons t1 ts')
          with Cons True Pos_I "2.IH"(4)[OF True Pos_I Cons ts] show ?thesis by simp
        qed
      qed
    qed
  qed
qed

lemma placeable_lower: "placeable k n ms \<Longrightarrow> \<forall>m\<in>set ms. n \<le> index m"
proof (induction ms arbitrary: k n)
  case Nil
  then show ?case by simp
next
  case (Cons m ms)
  from Cons.prems have n: "n \<le> index m" by simp
  from Cons.prems obtain k' n' where p: "placeable k' n' ms" and n': "index m \<le> n'"
    by (cases "position m") (auto simp: Let_def)
  from Cons.IH[OF p] n n' show ?case by fastforce
qed

lemma placeable_not_finished: "placeable k n ms \<Longrightarrow> \<not> finished_line_again ms"
proof (induction ms arbitrary: k n)
  case Nil
  then show ?case by simp
next
  case (Cons m ms)
  from Cons.prems obtain k' n' where p: "placeable k' n' ms"
    and n': "position m = Pos_E \<or> position m = Pos_A \<Longrightarrow> index m < n'"
    by (cases "position m") (auto simp: Let_def)
  from placeable_lower[OF p] n' have
    "position m = Pos_E \<or> position m = Pos_A \<Longrightarrow> \<not> list_ex (\<lambda>m'. index m' \<le> index m) ms"
    by (fastforce simp: list_ex_iff)
  with Cons.IH[OF p] show ?case by auto
qed

subsection \<open>Removing the marks\<close>

lemma sub_no_mark:
  "\<forall>x\<in>set repl. \<not> isM x \<Longrightarrow> \<forall>x\<in>set (sub isM repl s). \<not> isM x"
proof (induction isM repl s rule: sub.induct)
  case (1 isM repl)
  show ?case by simp
next
  case (2 isM repl c cs)
  show ?case
  proof (cases "match_at isM (c # cs)")
    case None
    then have "\<not> isM c" by (rule match_at_None)
    with "2.IH"(1)[OF None "2.prems"] None show ?thesis by simp
  next
    case (Some n)
    with "2.IH"(2)[OF Some "2.prems"] "2.prems" show ?thesis by auto
  qed
qed

lemma sub_id: "\<forall>x\<in>set s. \<not> isM x \<Longrightarrow> sub isM repl s = s"
proof (induction s)
  case Nil
  show ?case by simp
next
  case (Cons c cs)
  then have "match_at isM (c # cs) = None" by (intro match_at_no_mark) simp
  with Cons show ?case by simp
qed

lemma dropWhile_rev_idem:
  assumes "t = [] \<or> \<not> P (hd t)"
  shows "dropWhile P (rev (dropWhile P (rev t))) = rev (dropWhile P (rev t))"
proof (cases t)
  case Nil
  then show ?thesis by simp
next
  case (Cons a t')
  with assms have a: "\<not> P a" by simp
  then have "dropWhile P (rev t' @ [a]) = dropWhile P (rev t') @ [a]"
    by (simp add: dropWhile_append3)
  with Cons a show ?thesis by simp
qed

lemma strip_strip: "strip (strip s) = strip s"
proof -
  let ?t = "dropWhile isspace s"
  have "?t = [] \<or> \<not> isspace (hd ?t)" using hd_dropWhile[of isspace s] by blast
  then have "dropWhile isspace (rev (dropWhile isspace (rev ?t))) = rev (dropWhile isspace (rev ?t))"
    by (rule dropWhile_rev_idem)
  then show ?thesis by (simp add: strip_def)
qed

lemma set_strip: "set (strip s) \<subseteq> set s"
  unfolding strip_def by (metis set_dropWhileD set_rev subsetI)

lemma remove_aux_idem:
  assumes "\<not> is_mark P 32"
  shows "remove_aux P (remove_aux P s) = remove_aux P s"
proof -
  have "\<forall>x\<in>set (sub (is_mark P) [32] s). \<not> is_mark P x"
    using assms by (intro sub_no_mark) simp
  then have "\<forall>x\<in>set (remove_aux P s). \<not> is_mark P x"
    using set_strip unfolding remove_aux_def by blast
  then have "sub (is_mark P) [32] (remove_aux P s) = remove_aux P s" by (rule sub_id)
  then have "remove_aux P (remove_aux P s) = strip (remove_aux P s)"
    by (simp add: remove_aux_def)
  then show ?thesis by (simp add: remove_aux_def strip_strip)
qed

subsection \<open>Compiling an alphabet\<close>

lemma tokens_plain:
  "92 \<notin> set ms \<Longrightarrow> tokens rest = Some ts \<Longrightarrow> tokens (ms @ rest) = Some (map Chr ms @ ts)"
  by (induction ms) auto

lemma parse_set_step:
  "rest \<noteq> [] \<Longrightarrow> c \<noteq> 93 \<Longrightarrow> u \<noteq> Chr 45 \<Longrightarrow>
     parse_set its (Chr c # u # rest) = parse_set (its @ [LITERAL c]) (u # rest)"
  by (cases rest) auto

lemma parse_set_plain:
  "\<forall>c\<in>set ms. c \<noteq> 93 \<and> c \<noteq> 45 \<Longrightarrow> its \<noteq> [] \<or> ms \<noteq> [] \<Longrightarrow>
     parse_set its (map Chr ms @ [Chr 93, Chr 43, Esc 115, Chr 42]) =
       Closed (its @ map LITERAL ms) [Chr 43, Esc 115, Chr 42]"
proof (induction ms arbitrary: its)
  case Nil
  then show ?case by simp
next
  case (Cons c ms)
  from Cons.prems have c: "c \<noteq> 93" "c \<noteq> 45" and ms: "\<forall>c\<in>set ms. c \<noteq> 93 \<and> c \<noteq> 45"
    by simp_all
  have ih: "parse_set (its @ [LITERAL c]) (map Chr ms @ [Chr 93, Chr 43, Esc 115, Chr 42]) =
      Closed ((its @ [LITERAL c]) @ map LITERAL ms) [Chr 43, Esc 115, Chr 42]"
    by (rule Cons.IH[OF ms]) simp
  obtain u rest where ur: "map Chr ms @ [Chr 93, Chr 43, Esc 115, Chr 42] = u # rest"
    and u: "u \<noteq> Chr 45" and rest: "rest \<noteq> []"
    using ms by (cases ms) auto
  have "parse_set its (Chr c # u # rest) = parse_set (its @ [LITERAL c]) (u # rest)"
    by (rule parse_set_step[OF rest c(1) u])
  with ih ur show ?case by simp
qed

lemma re_compile_plain:
  assumes "plain_marks ms"
  shows "re_compile ms = Returns \<lparr>negate = False, items = map LITERAL ms\<rparr>"
proof -
  from assms have ne: "ms \<noteq> []" and b: "92 \<notin> set ms" and h: "hd ms \<noteq> 94"
    and p: "\<forall>c\<in>set ms. c \<noteq> 93 \<and> c \<noteq> 45"
    by (auto simp: plain_marks_def)
  have t: "tokens (ms @ pattern_tail) = Some (map Chr ms @ [Chr 93, Chr 43, Esc 115, Chr 42])"
    by (rule tokens_plain[OF b]) (simp add: pattern_tail_def)
  have hd: "hd (map Chr ms @ [Chr 93, Chr 43, Esc 115, Chr 42]) \<noteq> Chr 94"
    using ne h by (cases ms) auto
  have "parse_set [] (map Chr ms @ [Chr 93, Chr 43, Esc 115, Chr 42]) =
      Closed (map LITERAL ms) [Chr 43, Esc 115, Chr 42]"
    using parse_set_plain[OF p, of "[]"] ne by simp
  with t hd show ?thesis by (simp add: re_compile_def)
qed

lemma in_set_literals:
  "in_set \<lparr>negate = False, items = map LITERAL ms\<rparr> c \<longleftrightarrow> c \<in> set ms"
  by (auto simp: in_set_def list_ex_iff)

lemma Punctuation_plain:
  assumes o: "set_order order" and p: "plain_marks v"
  shows "\<exists>P. Punctuation order (Str v) = Returns P \<and> is_mark P = (\<lambda>c. c \<in> set v)"
proof -
  define P where "P = \<lparr>marks = order v, marks_re = \<lparr>negate = False, items = map LITERAL (order v)\<rparr>\<rparr>"
  from o have s: "set (order v) = set v" by (simp add: set_order_def)
  from p have "v \<noteq> []" by (simp add: plain_marks_def)
  with s have "order v \<noteq> []" by (metis set_empty)
  with p s have "plain_marks (order v)" by (simp add: plain_marks_def)
  then have "re_compile (order v) = Returns \<lparr>negate = False, items = map LITERAL (order v)\<rparr>"
    by (rule re_compile_plain)
  then have "Punctuation order (Str v) = Returns P"
    by (simp add: Punctuation_def set_marks_def P_def Let_def)
  moreover have "is_mark P = (\<lambda>c. c \<in> set v)"
    by (rule ext) (simp add: is_mark_def P_def in_set_literals s)
  ultimately show ?thesis by blast
qed

lemma Punctuation_plain_marks:
  assumes o: "set_order order" and p: "plain_marks v"
  shows "\<exists>P. Punctuation order (Str v) = Returns P \<and>
           is_mark P = (\<lambda>c. c \<in> set (marks P)) \<and> set (marks P) = set v"
proof -
  from Punctuation_plain[OF o p] obtain P where
    P: "Punctuation order (Str v) = Returns P" and m: "is_mark P = (\<lambda>c. c \<in> set v)"
    by blast
  from P have "marks P = order v"
    by (auto simp: Punctuation_def set_marks_def Let_def split: outcome.splits)
  with o have "set (marks P) = set v" by (simp add: set_order_def)
  with P m show ?thesis by auto
qed

lemma Punctuation_default:
  "Punctuation remdups (Str default_marks) = Returns default_punctuation"
  by (simp add: Punctuation_def set_marks_def re_compile_def pattern_tail_def
      default_punctuation_def default_marks_def)

lemma preserve_line_cong:
  "is_mark P = is_mark P' \<Longrightarrow> preserve_line P line n = preserve_line P' line n"
  by (simp add: preserve_line_def)

lemma preserve_loop_cong:
  "is_mark P = is_mark P' \<Longrightarrow> preserve_loop P n ls a b = preserve_loop P' n ls a b"
  by (induction ls arbitrary: n a b)
    (simp_all add: preserve_line_cong[of P P'] split: sum.splits prod.splits)

lemma preserve_cong: "is_mark P = is_mark P' \<Longrightarrow> preserve P tx = preserve P' tx"
  using preserve_loop_cong[of P P'] by (simp add: preserve_def)

lemma remove_cong: "is_mark P = is_mark P' \<Longrightarrow> remove P tx = remove P' tx"
  by (cases tx) (simp_all add: remove_aux_def)

lemma is_mark_default: "is_mark default_punctuation = (\<lambda>c. c \<in> set default_marks)"
  by (rule ext) (simp add: is_mark_def default_punctuation_def in_set_literals)

lemma plain_default: "plain_marks default_marks"
  by (simp add: plain_marks_def default_marks_def)

lemma preserve_hello: "preserve default_punctuation (Line (str ''hello, my world!'')) =
     Inr ([str ''hello'', str ''my world''],
          [\<lparr>index = 0, mark = str '', '', position = Pos_I\<rparr>,
           \<lparr>index = 0, mark = str ''!'', position = Pos_E\<rparr>])"
  by (simp add: eval_simps)

text \<open>With a hyphen between two characters the set is a range, in which the hyphen is
  not: a line of the hyphen alone has no match and is its own chunk.\<close>

lemma preserve_range_alphabet:
  "Punctuation remdups (Str (str ''a-c'')) =
     Returns \<lparr>marks = str ''a-c'', marks_re = \<lparr>negate = False, items = [RANGE 97 99]\<rparr>\<rparr> \<and>
   preserve \<lparr>marks = str ''a-c'', marks_re = \<lparr>negate = False, items = [RANGE 97 99]\<rparr>\<rparr>
     (Lines [str ''-'']) = Inr ([str ''-''], [])"
  by (simp add: eval_simps Punctuation_def set_marks_def re_compile_def pattern_tail_def)

section \<open>The claims of the specification\<close>

subsection \<open>Round trip\<close>

text \<open>
  Claim C1. Round-trip law: for every sequence of lines made of marks of the configured
  alphabet and of text without marks, \<^verbatim>\<open>restore\<close> applied to the chunks and marks
  that \<^verbatim>\<open>preserve\<close> returns yields exactly the lines. The code does not keep the law.
  With the default alphabet, in the line \<^verbatim>\<open>a, ,b\<close> the match of the first comma,
  with the space behind it, touches the match of the second comma: the piece between
  them is the empty string, which \<^verbatim>\<open>preserve\<close> filters out of the chunks while it
  keeps both marks, of position \<open>I\<close>; \<^verbatim>\<open>restore\<close>, given the two chunks and the
  two marks that \<^verbatim>\<open>preserve\<close> returned, joins the chunks at the first mark and reads
  beyond the end of the chunks at the second.
\<close>

theorem round_trip_failure:
  "Punctuation remdups (Str default_marks) = Returns default_punctuation \<and>
   preserve default_punctuation (Lines [str ''a, ,b'']) =
     Inr ([str ''a'', str ''b''],
          [\<lparr>index = 0, mark = str '', '', position = Pos_I\<rparr>,
           \<lparr>index = 0, mark = str '','', position = Pos_I\<rparr>]) \<and>
   restore (Lines [str ''a'', str ''b''])
     [\<lparr>index = 0, mark = str '', '', position = Pos_I\<rparr>,
      \<lparr>index = 0, mark = str '','', position = Pos_I\<rparr>] = Inl IndexError"
  by (simp add: eval_simps Punctuation_def set_marks_def re_compile_def pattern_tail_def)

subsection \<open>Positions on a concrete input\<close>

text \<open>
  Claim C2. Position correctness on a concrete input: with the default alphabet, in
  whatever order the interpreter iterates its set, the constructor returns an object, for
  which \<^verbatim>\<open>preserve('hello, my world!')\<close> returns the chunks \<^verbatim>\<open>hello\<close> and
  \<^verbatim>\<open>my world\<close> and exactly two mark records, both of line 0: the first with the comma
  and the space behind it as its text and position \<open>I\<close>, the second with the
  exclamation mark and position \<open>E\<close>; the list of that one line gives the same; and
  \<^verbatim>\<open>restore\<close> applied to that output gives back the single line.
\<close>

theorem position_correctness:
  assumes "set_order order"
  shows "\<exists>P. Punctuation order (Str default_marks) = Returns P \<and>
     preserve P (Line (str ''hello, my world!'')) =
       Inr ([str ''hello'', str ''my world''],
            [\<lparr>index = 0, mark = str '', '', position = Pos_I\<rparr>,
             \<lparr>index = 0, mark = str ''!'', position = Pos_E\<rparr>]) \<and>
     preserve P (Lines [str ''hello, my world!'']) =
       Inr ([str ''hello'', str ''my world''],
            [\<lparr>index = 0, mark = str '', '', position = Pos_I\<rparr>,
             \<lparr>index = 0, mark = str ''!'', position = Pos_E\<rparr>]) \<and>
     restore (Lines [str ''hello'', str ''my world''])
       [\<lparr>index = 0, mark = str '', '', position = Pos_I\<rparr>,
        \<lparr>index = 0, mark = str ''!'', position = Pos_E\<rparr>] = Inr [str ''hello, my world!'']"
proof -
  from Punctuation_plain[OF assms plain_default] obtain P where
    P: "Punctuation order (Str default_marks) = Returns P" and
    m: "is_mark P = (\<lambda>c. c \<in> set default_marks)" by blast
  have "preserve P (Line (str ''hello, my world!'')) =
      preserve default_punctuation (Line (str ''hello, my world!''))"
    by (rule preserve_cong) (simp add: m is_mark_default)
  moreover have "preserve P (Lines [str ''hello, my world!'']) =
      preserve P (Line (str ''hello, my world!''))"
    by (simp add: preserve_def)
  moreover have "restore (Lines [str ''hello'', str ''my world''])
       [\<lparr>index = 0, mark = str '', '', position = Pos_I\<rparr>,
        \<lparr>index = 0, mark = str ''!'', position = Pos_E\<rparr>] = Inr [str ''hello, my world!'']"
    by (simp add: restore_def str_def)
  ultimately show ?thesis using P preserve_hello by simp
qed

theorem position_correctness_witness:
  "set_order remdups \<and>
   (\<exists>P. Punctuation remdups (Str default_marks) = Returns P \<and>
     preserve P (Line (str ''hello, my world!'')) =
       Inr ([str ''hello'', str ''my world''],
            [\<lparr>index = 0, mark = str '', '', position = Pos_I\<rparr>,
             \<lparr>index = 0, mark = str ''!'', position = Pos_E\<rparr>]) \<and>
     restore (Lines [str ''hello'', str ''my world''])
       [\<lparr>index = 0, mark = str '', '', position = Pos_I\<rparr>,
        \<lparr>index = 0, mark = str ''!'', position = Pos_E\<rparr>] = Inr [str ''hello, my world!''])"
proof -
  have h: "set_order remdups" by (simp add: set_order_def)
  show ?thesis using h position_correctness[OF h] by blast
qed

subsection \<open>The empty alphabet\<close>

text \<open>
  Claim C3. The empty alphabet, as the code has it: constructing the punctuation
  processor from the empty string raises the error of \<^verbatim>\<open>re.compile\<close> (the pattern
  \<^verbatim>\<open>\s*[]+\s*\<close> has an unterminated character set), so there is no processor with an
  empty alphabet. For a processor that the constructor returns with a pattern of one
  character set (of literal characters, ranges and \<^verbatim>\<open>\s\<close>) and an input in which
  no character is in that set, \<^verbatim>\<open>preserve\<close> yields the non-empty input lines, in
  order, as the chunks, and the empty mark sequence.
\<close>

theorem empty_alphabet:
  "(set_order order \<longrightarrow>
      Punctuation order (Str []) = Raises (Re_error Unterminated_character_set)) \<and>
   (Punctuation order val = Returns P \<and> (\<forall>l\<in>set L. \<forall>x\<in>set l. \<not> is_mark P x) \<longrightarrow>
      preserve P (Lines L) = Inr (filter (\<lambda>l. l \<noteq> []) L, []))"
proof (intro conjI impI)
  assume "set_order order"
  then have "set (order []) = {}" by (simp add: set_order_def)
  then have "order [] = []" by simp
  then show "Punctuation order (Str []) = Raises (Re_error Unterminated_character_set)"
    by (simp add: Punctuation_def set_marks_def re_compile_def pattern_tail_def)
next
  assume "Punctuation order val = Returns P \<and> (\<forall>l\<in>set L. \<forall>x\<in>set l. \<not> is_mark P x)"
  then have "\<forall>l\<in>set L. finditer (is_mark P) l = []"
    by (simp add: finditer_def finditer_from_no_mark)
  then have "all_results P 0 L = (L, [])" by (rule all_results_no_match)
  then show "preserve P (Lines L) = Inr (filter (\<lambda>l. l \<noteq> []) L, [])"
    by (simp add: preserve_results)
qed

theorem empty_alphabet_witness:
  "set_order remdups \<and>
   Punctuation remdups (Str []) = Raises (Re_error Unterminated_character_set) \<and>
   Punctuation remdups (Str default_marks) = Returns default_punctuation \<and>
   list_all (list_all (\<lambda>x. \<not> is_mark default_punctuation x)) [str ''ab'', [], str ''c d''] \<and>
   preserve default_punctuation (Lines [str ''ab'', [], str ''c d'']) =
     Inr ([str ''ab'', str ''c d''], [])"
proof -
  have o: "set_order remdups" by (simp add: set_order_def)
  have h: "\<forall>l\<in>set [str ''ab'', [], str ''c d'']. \<forall>x\<in>set l. \<not> is_mark default_punctuation x"
    by (simp add: eval_simps)
  show ?thesis
    using o h Punctuation_default
      empty_alphabet[of remdups "Str default_marks" default_punctuation
        "[str ''ab'', [], str ''c d'']"]
    by (simp add: str_def list_all_iff)
qed

text \<open>The claim as first stated fails at the construction.\<close>

theorem empty_alphabet_counterexample:
  "Punctuation remdups (Str []) = Raises (Re_error Unterminated_character_set)"
  by (simp add: Punctuation_def set_marks_def re_compile_def pattern_tail_def)

subsection \<open>Marks that the walk cannot place\<close>

text \<open>
  Claim C4. Restore error behaviour: \<^verbatim>\<open>restore\<close> either fails as a whole, with the
  \<^verbatim>\<open>IndexError\<close> of reading beyond the end of the chunks (the only error of
  \<^verbatim>\<open>_restore_aux\<close>) and no output, or returns the complete list of lines. It fails
  exactly when the marks cannot be placed on the chunks by a walk that starts at line 0:
  when the index of a mark is below the line at which the walk stands, which is a line
  before the first or a line that the marks before it have finished, or when too few
  chunks are left for the lines up to that index and for the mark itself. So it fails
  whenever a mark has a negative index, an index beyond the lines that the chunks and the
  marks of position \<open>A\<close> can make up, an index smaller than that of a mark before it, or
  an index not beyond that of a mark of position \<open>E\<close> or \<open>A\<close> before it. When it
  returns, every mark has the index of a line of the output, where the walk placed it.
\<close>

theorem restore_malformed:
  "(restore (Lines chunks) ms = Inl IndexError \<or>
    (\<exists>out. restore (Lines chunks) ms = Inr out \<and>
       sorted (map index ms) \<and> \<not> finished_line_again ms \<and>
       (\<forall>m\<in>set ms. 0 \<le> index m \<and> index m < int (length out)) \<and>
       length out \<le> length chunks + count_alone ms)) \<and>
   (restore (Lines chunks) ms = Inl IndexError \<longleftrightarrow>
      \<not> placeable (int (length chunks)) 0 ms) \<and>
   ((\<exists>m\<in>set ms. index m < 0 \<or> int (length chunks) + int (count_alone ms) \<le> index m)
      \<or> \<not> sorted (map index ms) \<or> finished_line_again ms \<longrightarrow>
    restore (Lines chunks) ms = Inl IndexError)"
proof (cases "restore_aux chunks ms 0")
  case (Inl e)
  then have "\<not> placeable (int (length chunks)) 0 ms"
    using restore_aux_placeable[of chunks ms 0] by simp
  with Inl show ?thesis using restore_aux_IndexError[OF Inl] by (simp add: restore_def)
next
  case (Inr out)
  from restore_aux_Inr[OF Inr] have
    a: "\<forall>m\<in>set ms. 0 \<le> index m \<and> index m < int (length out)" and
    b: "sorted (map index ms)" and
    c: "length out \<le> length chunks + count_alone ms"
    by simp_all
  from Inr have p: "placeable (int (length chunks)) 0 ms"
    using restore_aux_placeable[of chunks ms 0] by simp
  from placeable_not_finished[OF p] have d: "\<not> finished_line_again ms" .
  from a c have "\<not> (\<exists>m\<in>set ms. index m < 0 \<or>
      int (length chunks) + int (count_alone ms) \<le> index m)"
    by fastforce
  with a b c d p Inr show ?thesis by (simp add: restore_def)
qed

theorem restore_malformed_witness:
  "finished_line_again
     [\<lparr>index = 0, mark = str ''!'', position = Pos_E\<rparr>,
      \<lparr>index = 0, mark = str ''?'', position = Pos_E\<rparr>] \<and>
   restore (Lines [str ''a'', str ''b''])
     [\<lparr>index = 0, mark = str ''!'', position = Pos_E\<rparr>,
      \<lparr>index = 0, mark = str ''?'', position = Pos_E\<rparr>] = Inl IndexError \<and>
   restore (Lines [])
     [\<lparr>index = 0, mark = str ''!'', position = Pos_A\<rparr>,
      \<lparr>index = 0, mark = str ''?'', position = Pos_A\<rparr>] = Inl IndexError \<and>
   \<not> placeable 3 0
     [\<lparr>index = 0, mark = str '','', position = Pos_I\<rparr>,
      \<lparr>index = 2, mark = str ''!'', position = Pos_E\<rparr>] \<and>
   restore (Lines [str ''a'', str ''b'', str ''c''])
     [\<lparr>index = 0, mark = str '','', position = Pos_I\<rparr>,
      \<lparr>index = 2, mark = str ''!'', position = Pos_E\<rparr>] = Inl IndexError \<and>
   restore (Lines [str ''a'']) [\<lparr>index = 5, mark = str ''!'', position = Pos_E\<rparr>] = Inl IndexError \<and>
   placeable 2 0
     [\<lparr>index = 0, mark = str ''!'', position = Pos_E\<rparr>,
      \<lparr>index = 1, mark = str ''?'', position = Pos_A\<rparr>] \<and>
   restore (Lines [str ''a'', str ''b''])
     [\<lparr>index = 0, mark = str ''!'', position = Pos_E\<rparr>,
      \<lparr>index = 1, mark = str ''?'', position = Pos_A\<rparr>] =
     Inr [str ''a!'', str ''?'', str ''b'']"
proof -
  have h: "(\<exists>m\<in>set [\<lparr>index = 0, mark = str ''!'', position = Pos_E\<rparr>,
                   \<lparr>index = 0, mark = str ''?'', position = Pos_E\<rparr>].
       index m < 0 \<or>
       int (length [str ''a'', str ''b'']) +
         int (count_alone [\<lparr>index = 0, mark = str ''!'', position = Pos_E\<rparr>,
                           \<lparr>index = 0, mark = str ''?'', position = Pos_E\<rparr>]) \<le> index m) \<or>
    \<not> sorted (map index [\<lparr>index = 0, mark = str ''!'', position = Pos_E\<rparr>,
                         \<lparr>index = 0, mark = str ''?'', position = Pos_E\<rparr>]) \<or>
    finished_line_again [\<lparr>index = 0, mark = str ''!'', position = Pos_E\<rparr>,
                         \<lparr>index = 0, mark = str ''?'', position = Pos_E\<rparr>]"
    by simp
  have "restore (Lines [str ''a'', str ''b''])
     [\<lparr>index = 0, mark = str ''!'', position = Pos_E\<rparr>,
      \<lparr>index = 0, mark = str ''?'', position = Pos_E\<rparr>] = Inl IndexError"
    using h restore_malformed[of "[str ''a'', str ''b'']"
        "[\<lparr>index = 0, mark = str ''!'', position = Pos_E\<rparr>,
          \<lparr>index = 0, mark = str ''?'', position = Pos_E\<rparr>]"]
    by blast
  then show ?thesis by (simp add: restore_def str_def)
qed

subsection \<open>A line of punctuation only\<close>



subsection \<open>Removing twice\<close>

text \<open>
  Claim C6. Idempotence of \<^verbatim>\<open>remove\<close>, as the code has it: for every input, a single
  line or a sequence of lines, and every processor that the constructor returns with a
  pattern of one character set (of literal characters, ranges and \<^verbatim>\<open>\s\<close>) that does
  not hold the space character, removing twice gives what removing once gives.
  \<^verbatim>\<open>remove\<close> has no failure: it is a total function.
\<close>

theorem remove_idempotent:
  "Punctuation order val = Returns P \<Longrightarrow> \<not> is_mark P 32 \<Longrightarrow>
     remove P (remove P text) = remove P text"
  by (cases "text") (simp_all add: remove_aux_idem)

theorem remove_idempotent_witness:
  "Punctuation remdups (Str default_marks) = Returns default_punctuation \<and>
   \<not> is_mark default_punctuation 32 \<and>
   remove default_punctuation (Line (str '' hello , my world! '')) = Line (str ''hello my world'') \<and>
   remove default_punctuation (remove default_punctuation (Line (str '' hello , my world! ''))) =
     remove default_punctuation (Line (str '' hello , my world! ''))"
proof -
  have h: "\<not> is_mark default_punctuation 32" by (simp add: eval_simps)
  have e: "remove default_punctuation (Line (str '' hello , my world! '')) =
      Line (str ''hello my world'')" by (simp add: eval_simps)
  show ?thesis
    using h e Punctuation_default
      remove_idempotent[OF Punctuation_default h, of "Line (str '' hello , my world! '')"]
    by simp
qed

text \<open>
  For every non-empty alphabet the claim fails: with the alphabet of the space and the
  comma, the line of \<^verbatim>\<open>a\<close>, a space, a comma, a tabulator, a comma and \<^verbatim>\<open>b\<close> has two
  matches that touch; each becomes a space, and the two spaces are one match of the second
  pass.
\<close>

theorem remove_idempotent_counterexample:
  "Punctuation remdups (Str (str '' ,'')) =
     Returns \<lparr>marks = str '' ,'', marks_re = \<lparr>negate = False, items = [LITERAL 32, LITERAL 44]\<rparr>\<rparr> \<and>
   remove \<lparr>marks = str '' ,'', marks_re = \<lparr>negate = False, items = [LITERAL 32, LITERAL 44]\<rparr>\<rparr>
     (Line [97, 32, 44, 9, 44, 98]) = Line [97, 32, 32, 98] \<and>
   remove \<lparr>marks = str '' ,'', marks_re = \<lparr>negate = False, items = [LITERAL 32, LITERAL 44]\<rparr>\<rparr>
     (Line [97, 32, 32, 98]) = Line [97, 32, 98]"
  by (simp add: eval_simps Punctuation_def set_marks_def re_compile_def pattern_tail_def)

subsection \<open>The chunks\<close>

text \<open>
  Claim C7. Chunk postcondition, as the code has it: for a processor that the
  constructor returns with a pattern of one character set whose characters are the
  configured marks and no other, as it is for every alphabet without the hyphen, the
  backslash, the closing bracket and the circumflex, every chunk in the sequence that
  \<^verbatim>\<open>preserve\<close> returns is a non-empty string and holds no character of the
  configured mark set. A chunk keeps the whitespace of the line that no match took.
\<close>

theorem preserve_chunks:
  assumes "Punctuation order val = Returns P"
    and "is_mark P = (\<lambda>c. c \<in> set (marks P))"
    and "preserve P text = Inr (chunks, ms)"
  shows "\<forall>c\<in>set chunks. c \<noteq> [] \<and> (\<forall>x\<in>set c. x \<notin> set (marks P))"
  using assms(2,3) all_results_no_mark[of P 0 "str2list text"]
  by (auto simp: preserve_results)

theorem preserve_chunks_witness:
  "Punctuation remdups (Str default_marks) = Returns default_punctuation \<and>
   is_mark default_punctuation = (\<lambda>c. c \<in> set (marks default_punctuation)) \<and>
   preserve default_punctuation (Line (str ''hello, my world!'')) =
     Inr ([str ''hello'', str ''my world''],
          [\<lparr>index = 0, mark = str '', '', position = Pos_I\<rparr>,
           \<lparr>index = 0, mark = str ''!'', position = Pos_E\<rparr>]) \<and>
   list_all (\<lambda>c. c \<noteq> [] \<and> list_all (\<lambda>x. x \<notin> set (marks default_punctuation)) c)
     [str ''hello'', str ''my world'']"
proof -
  have m: "is_mark default_punctuation = (\<lambda>c. c \<in> set (marks default_punctuation))"
    using is_mark_default by (simp add: default_punctuation_def)
  show ?thesis
    using m Punctuation_default preserve_hello
      preserve_chunks[OF Punctuation_default m preserve_hello]
    by (simp add: list_all_iff)
qed

text \<open>The chunk of a line that starts with a space and has no mark is the line, which
  is not trimmed.\<close>

theorem preserve_chunks_counterexample:
  "preserve default_punctuation (Lines [str '' a'']) = Inr ([str '' a''], []) \<and>
   strip (str '' a'') = str ''a'' \<and> str ''a'' \<noteq> str '' a''"
  by (simp add: eval_simps)

subsection \<open>The order of the alphabet\<close>

text \<open>
  Claim C8. Matcher determinism with respect to the order of the configuration: the
  claim is that two configuration strings of the same set of characters give processors
  that behave alike. The code pastes the characters into the pattern in the order in
  which the set is iterated, unescaped: for the two strings of the circumflex and
  \<^verbatim>\<open>a\<close>, when each set is iterated in the order of its string, one processor takes
  every character but \<^verbatim>\<open>a\<close> as a mark and the other takes \<^verbatim>\<open>a\<close> and the
  circumflex, and \<^verbatim>\<open>preserve\<close> and \<^verbatim>\<open>remove\<close> differ on the line \<^verbatim>\<open>b\<close>.
\<close>

theorem order_dependence:
  "set_order remdups \<and> set (str ''^a'') = set (str ''a^'') \<and>
   Punctuation remdups (Str (str ''^a'')) =
     Returns \<lparr>marks = str ''^a'', marks_re = \<lparr>negate = True, items = [LITERAL 97]\<rparr>\<rparr> \<and>
   Punctuation remdups (Str (str ''a^'')) =
     Returns \<lparr>marks = str ''a^'', marks_re = \<lparr>negate = False, items = [LITERAL 97, LITERAL 94]\<rparr>\<rparr> \<and>
   preserve \<lparr>marks = str ''^a'', marks_re = \<lparr>negate = True, items = [LITERAL 97]\<rparr>\<rparr>
     (Lines [str ''b'']) = Inr ([], [\<lparr>index = 0, mark = str ''b'', position = Pos_A\<rparr>]) \<and>
   preserve \<lparr>marks = str ''a^'', marks_re = \<lparr>negate = False, items = [LITERAL 97, LITERAL 94]\<rparr>\<rparr>
     (Lines [str ''b'']) = Inr ([str ''b''], []) \<and>
   remove \<lparr>marks = str ''^a'', marks_re = \<lparr>negate = True, items = [LITERAL 97]\<rparr>\<rparr>
     (Line (str ''b'')) = Line [] \<and>
   remove \<lparr>marks = str ''a^'', marks_re = \<lparr>negate = False, items = [LITERAL 97, LITERAL 94]\<rparr>\<rparr>
     (Line (str ''b'')) = Line (str ''b'')"
proof -
  have "set (str ''^a'') = set (str ''a^'')" by (auto simp: str_def)
  then show ?thesis
    by (simp add: set_order_def eval_simps Punctuation_def set_marks_def re_compile_def
        pattern_tail_def)
qed

subsection \<open>Empty lines\<close>

text \<open>
  Claim C9. Empty input lines are dropped: \<^verbatim>\<open>preserve\<close> emits no chunk and no mark
  record for an empty line, so that restoring what \<^verbatim>\<open>preserve\<close> returns gives one
  line fewer than the input for each empty line. The code does not keep the second part.
  The marks keep the indices of the input lines, while the walk of \<^verbatim>\<open>restore\<close>
  counts the lines that it puts out: with the default alphabet, of the empty line and
  the line \<^verbatim>\<open>!\<close> there is no chunk, and \<^verbatim>\<open>restore\<close> reads beyond the end of the
  chunks before its walk reaches line 1; and of the empty line, the line \<^verbatim>\<open>a!\<close> and
  the line \<^verbatim>\<open>b\<close> it puts the mark of the second line at the end of the third.
\<close>

theorem empty_line_failure:
  "Punctuation remdups (Str default_marks) = Returns default_punctuation \<and>
   preserve default_punctuation (Lines [[], str ''!'']) =
     Inr ([], [\<lparr>index = 1, mark = str ''!'', position = Pos_A\<rparr>]) \<and>
   restore (Lines []) [\<lparr>index = 1, mark = str ''!'', position = Pos_A\<rparr>] = Inl IndexError \<and>
   preserve default_punctuation (Lines [[], str ''a!'', str ''b'']) =
     Inr ([str ''a'', str ''b''], [\<lparr>index = 1, mark = str ''!'', position = Pos_E\<rparr>]) \<and>
   restore (Lines [str ''a'', str ''b'']) [\<lparr>index = 1, mark = str ''!'', position = Pos_E\<rparr>] =
     Inr [str ''a'', str ''b!'']"
  by (simp add: eval_simps Punctuation_def set_marks_def re_compile_def pattern_tail_def)

subsection \<open>Restoring without marks\<close>

text \<open>
  Claim C10. Restore with no marks is the identity: for every chunk sequence \<open>C\<close>,
  restoring \<open>C\<close> with the empty mark sequence returns \<open>C\<close> unchanged, each chunk one
  output line, in order.
\<close>

theorem restore_no_marks: "restore (Lines C) [] = Inr C"
  by (simp add: restore_def)

end
